theory Spec2Isabelle
  imports Main "HOL-Library.Sublist"
begin

section \<open>Strings and character classes\<close>

text \<open>
  A JavaScript string is a sequence of UTF-16 code units. The embedding uses \<^typ>\<open>string\<close>,
  that is \<^typ>\<open>char list\<close>, and reads a \<^typ>\<open>char\<close> as a code unit in the range 0..255.
  Within that range the regular-expression class \<^verbatim>\<open>\s\<close> and \<^verbatim>\<open>String.prototype.trim\<close>
  recognise exactly TAB, LF, VT, FF, CR, SPACE and NBSP; the class \<^verbatim>\<open>.\<close> excludes LF and CR.
\<close>

definition nl :: char where
  "nl = CHR 0x0A"

definition is_space :: "char \<Rightarrow> bool" where
  "is_space c \<longleftrightarrow>
     c \<in> set [CHR 0x09, CHR 0x0A, CHR 0x0B, CHR 0x0C, CHR 0x0D, CHR 0x20, CHR 0xA0]"

definition is_line_terminator :: "char \<Rightarrow> bool" where
  "is_line_terminator c \<longleftrightarrow> c = CHR 0x0A \<or> c = CHR 0x0D"

definition is_lower :: "char \<Rightarrow> bool" where
  \<comment> \<open>the class \<^verbatim>\<open>[a-z]\<close>\<close>
  "is_lower c \<longleftrightarrow> 97 \<le> (of_char c :: nat) \<and> (of_char c :: nat) \<le> 122"

definition trim :: "string \<Rightarrow> string" where
  \<comment> \<open>\<^verbatim>\<open>String.prototype.trim\<close>\<close>
  "trim s = rev (dropWhile is_space (rev (dropWhile is_space s)))"

definition startsWith :: "string \<Rightarrow> string \<Rightarrow> bool" where
  \<comment> \<open>\<^verbatim>\<open>s.startsWith(p)\<close>\<close>
  "startsWith s p \<longleftrightarrow> prefix p s"

definition substring :: "string \<Rightarrow> nat \<Rightarrow> string" where
  \<comment> \<open>\<^verbatim>\<open>s.substring(n)\<close> with one argument\<close>
  "substring s n = drop n s"

fun splitLines :: "string \<Rightarrow> string list" where
  \<comment> \<open>\<^verbatim>\<open>s.split('\n')\<close>: always at least one line\<close>
  "splitLines [] = [[]]"
| "splitLines (c # t) =
     (if c = nl then [] # splitLines t
      else (case splitLines t of
              [] \<Rightarrow> [[c]]
            | l # ls \<Rightarrow> (c # l) # ls))"

section \<open>Global regular-expression replacement\<close>

text \<open>
  \<^verbatim>\<open>text.replace(/re/g, template)\<close> scans the subject from left to right. At each position the
  expression is tried; on a match the instantiated template is emitted and the scan resumes after
  the match, otherwise the character is copied and the scan moves one position on. An empty match
  emits the template and then advances by one character, as \<^verbatim>\<open>AdvanceStringIndex\<close> does.

  A rule is one regular expression together with its template: given the character before the
  current position (\<open>None\<close> at index 0, which is what \<^verbatim>\<open>^\<close> and the look-behind need) and the
  rest of the subject, it returns the instantiated template and the unconsumed remainder.
\<close>

type_synonym rule = "char option \<Rightarrow> string \<Rightarrow> (string \<times> string) option"

definition lastConsumed :: "string \<Rightarrow> string \<Rightarrow> char option" where
  \<comment> \<open>the last character of the match, given the subject and what the match left over\<close>
  "lastConsumed s rest = Some (last (take (length s - length rest) s))"

function regexReplace :: "rule \<Rightarrow> char option \<Rightarrow> string \<Rightarrow> string" where
  "regexReplace m prev [] = (case m prev [] of Some (out, rest) \<Rightarrow> out | None \<Rightarrow> [])"
| "regexReplace m prev (c # t) =
     (case m prev (c # t) of
        Some (out, rest) \<Rightarrow>
          if length rest < length (c # t)
          then out @ regexReplace m (lastConsumed (c # t) rest) rest
          else out @ c # regexReplace m (Some c) t
      | None \<Rightarrow> c # regexReplace m (Some c) t)"
  by pat_completeness auto
termination
  by (relation "measure (\<lambda>(m, prev, s). length s)") auto

section \<open>The HTML-escape pre-pass\<close>

definition replaceChar :: "char \<Rightarrow> string \<Rightarrow> string \<Rightarrow> string" where
  \<comment> \<open>\<^verbatim>\<open>s.replace(/c/g, r)\<close> for a single literal character\<close>
  "replaceChar c r s = concat (map (\<lambda>x. if x = c then r else [x]) s)"

definition escapeHtml :: "string \<Rightarrow> string" where
  "escapeHtml text =
     replaceChar CHR ''>'' ''&gt;''
       (replaceChar CHR ''<'' ''&lt;''
         (replaceChar CHR ''&'' ''&amp;'' text))"

section \<open>The inline rules\<close>

subsection \<open>Links\<close>

definition stripPrefix :: "string \<Rightarrow> string \<Rightarrow> string option" where
  "stripPrefix p s = (if prefix p s then Some (drop (length p) s) else None)"

definition scheme_at :: "string \<Rightarrow> (string \<times> string) option" where
  \<comment> \<open>\<^verbatim>\<open>https?:\/\/\<close>\<close>
  "scheme_at s =
     (case stripPrefix ''https://'' s of
        Some r \<Rightarrow> Some (''https://'', r)
      | None \<Rightarrow>
          (case stripPrefix ''http://'' s of
             Some r \<Rightarrow> Some (''http://'', r)
           | None \<Rightarrow> None))"

definition url_char :: "char \<Rightarrow> bool" where
  \<comment> \<open>the class \<^verbatim>\<open>[^\s)]\<close>\<close>
  "url_char c \<longleftrightarrow> \<not> is_space c \<and> c \<noteq> CHR '')''"

definition link_at :: "string \<Rightarrow> (string \<times> string \<times> string) option" where
  \<comment> \<open>\<^verbatim>\<open>\[([^\]]+)\]\((https?:\/\/[^\s)]+)\)\<close>: label, url and remainder\<close>
  "link_at s =
     (case s of
        [] \<Rightarrow> None
      | c # s1 \<Rightarrow>
          if c \<noteq> CHR ''['' then None
          else
            let label = takeWhile (\<lambda>x. x \<noteq> CHR '']'') s1;
                r1 = dropWhile (\<lambda>x. x \<noteq> CHR '']'') s1
            in if label = [] then None
               else
                 (case stripPrefix '']('' r1 of
                    None \<Rightarrow> None
                  | Some r2 \<Rightarrow>
                      (case scheme_at r2 of
                         None \<Rightarrow> None
                       | Some (sch, r3) \<Rightarrow>
                           let rest_url = takeWhile url_char r3;
                               r4 = dropWhile url_char r3
                           in if rest_url = [] then None
                              else
                                (case r4 of
                                   [] \<Rightarrow> None
                                 | d # rest \<Rightarrow>
                                     if d = CHR '')'' then Some (label, sch @ rest_url, rest)
                                     else None))))"

definition a_open :: string where
  \<open>a_open = ''<a href="''\<close>

definition a_attrs :: string where
  \<open>a_attrs = ''" target="_blank" rel="noopener noreferrer"''\<close>

definition a_class :: string where
  \<open>a_class = '' class="text-indigo-500 hover:underline">''\<close>

definition a_close :: string where
  "a_close = ''</a>''"

definition linkTemplate :: "string \<Rightarrow> string \<Rightarrow> string" where
  \<comment> \<open>the template with \<^verbatim>\<open>$1\<close> the label and \<^verbatim>\<open>$2\<close> the url\<close>
  "linkTemplate label url = a_open @ url @ a_attrs @ a_class @ label @ a_close"

definition link_rule :: rule where
  "link_rule prev s =
     (case link_at s of
        None \<Rightarrow> None
      | Some (label, url, rest) \<Rightarrow> Some (linkTemplate label url, rest))"

subsection \<open>Bold\<close>

fun bold_close :: "string \<Rightarrow> (string \<times> string) option" where
  \<comment> \<open>\<^verbatim>\<open>(.*?)\*\*\<close>: the shortest run without a line terminator that is followed by two asterisks\<close>
  "bold_close [] = None"
| "bold_close (c # t) =
     (if prefix ''**'' (c # t) then Some ([], drop 2 (c # t))
      else if is_line_terminator c then None
      else (case bold_close t of
              None \<Rightarrow> None
            | Some (g, rest) \<Rightarrow> Some (c # g, rest)))"

definition bold_at :: "string \<Rightarrow> (string \<times> string) option" where
  \<comment> \<open>\<^verbatim>\<open>\*\*(.*?)\*\*\<close>\<close>
  "bold_at s = (case stripPrefix ''**'' s of None \<Rightarrow> None | Some r \<Rightarrow> bold_close r)"

definition bold_rule :: rule where
  "bold_rule prev s =
     (case bold_at s of
        None \<Rightarrow> None
      | Some (g, rest) \<Rightarrow> Some (''<strong>'' @ g @ ''</strong>'', rest))"

subsection \<open>Italic\<close>

definition delimited_at :: "char \<Rightarrow> string \<Rightarrow> (string \<times> string) option" where
  \<comment> \<open>\<^verbatim>\<open>d([^d]+)d\<close> for a delimiter character \<open>d\<close>\<close>
  "delimited_at d s =
     (case s of
        [] \<Rightarrow> None
      | c # t \<Rightarrow>
          if c \<noteq> d then None
          else
            let g = takeWhile (\<lambda>x. x \<noteq> d) t;
                r = dropWhile (\<lambda>x. x \<noteq> d) t
            in if g = [] then None
               else (case r of [] \<Rightarrow> None | e # rest \<Rightarrow> Some (g, rest)))"

definition underscore_rule :: rule where
  \<comment> \<open>\<^verbatim>\<open>_([^_]+)_\<close>\<close>
  "underscore_rule prev s =
     (case delimited_at CHR ''_'' s of
        None \<Rightarrow> None
      | Some (g, rest) \<Rightarrow> Some (''<em>'' @ g @ ''</em>'', rest))"

definition star_at :: "char option \<Rightarrow> string \<Rightarrow> (string \<times> string) option" where
  \<comment> \<open>\<^verbatim>\<open>(?<!\*)\*([^\s*][^*]*?)\*(?!\*)\<close>\<close>
  "star_at prev s =
     (case s of
        [] \<Rightarrow> None
      | c # t \<Rightarrow>
          if c \<noteq> CHR ''*'' \<or> prev = Some CHR ''*'' then None
          else
            (case t of
               [] \<Rightarrow> None
             | d # u \<Rightarrow>
                 if is_space d \<or> d = CHR ''*'' then None
                 else
                   let g = takeWhile (\<lambda>x. x \<noteq> CHR ''*'') u;
                       r = dropWhile (\<lambda>x. x \<noteq> CHR ''*'') u
                   in (case r of
                         [] \<Rightarrow> None
                       | e # rest \<Rightarrow>
                           if prefix ''*'' rest then None
                           else Some (d # g, rest))))"

definition star_rule :: rule where
  "star_rule prev s =
     (case star_at prev s of
        None \<Rightarrow> None
      | Some (g, rest) \<Rightarrow> Some (''<em>'' @ g @ ''</em>'', rest))"

subsection \<open>Inline code\<close>

definition code_open :: string where
  \<open>code_open = ''<code class="bg-gray-200 dark:bg-gray-700 rounded-lg px-1.5 py-1 font-mono text-sm">''\<close>

definition code_close :: string where
  "code_close = ''</code>''"

definition code_rule :: rule where
  \<comment> \<open>\<^verbatim>\<open>`([^`]+)`\<close>\<close>
  "code_rule prev s =
     (case delimited_at CHR ''`'' s of
        None \<Rightarrow> None
      | Some (g, rest) \<Rightarrow> Some (code_open @ g @ code_close, rest))"

subsection \<open>The inline formatter\<close>

definition applyInlineFormatting :: "string \<Rightarrow> string" where
  "applyInlineFormatting text =
     regexReplace code_rule None
       (regexReplace star_rule None
         (regexReplace underscore_rule None
           (regexReplace bold_rule None
             (regexReplace link_rule None
               (escapeHtml text)))))"

section \<open>Blocks\<close>

fun fence_close :: "string \<Rightarrow> (string \<times> string) option" where
  \<comment> \<open>\<^verbatim>\<open>[\s\S]*?```\<close>: the shortest run of any characters that is followed by a fence\<close>
  "fence_close [] = None"
| "fence_close (c # t) =
     (if prefix ''```'' (c # t) then Some ([], drop 3 (c # t))
      else (case fence_close t of
              None \<Rightarrow> None
            | Some (body, rest) \<Rightarrow> Some (c # body, rest)))"

definition fence_at :: "string \<Rightarrow> (string \<times> string) option" where
  \<comment> \<open>\<^verbatim>\<open>(```[\s\S]*?```)\<close>: the captured text, delimiters included, and the remainder\<close>
  "fence_at s =
     (case stripPrefix ''```'' s of
        None \<Rightarrow> None
      | Some r \<Rightarrow>
          (case fence_close r of
             None \<Rightarrow> None
           | Some (body, rest) \<Rightarrow> Some (''```'' @ body @ ''```'', rest)))"

function splitFrom :: "string \<Rightarrow> string \<Rightarrow> string list" where
  \<comment> \<open>the text collected since the last separator, and the rest of the subject\<close>
  "splitFrom cur [] = [cur]"
| "splitFrom cur (c # t) =
     (case fence_at (c # t) of
        Some (m, rest) \<Rightarrow> cur # m # splitFrom [] rest
      | None \<Rightarrow> splitFrom (cur @ [c]) t)"
  by pat_completeness auto
termination
proof -
  have close: "length rest < length s" if "fence_close s = Some (body, rest)"
    for s body rest
    using that by (induction s arbitrary: body) (auto split: if_splits option.splits)
  have at: "length rest < length s" if "fence_at s = Some (m, rest)" for s m rest
    using that
    by (auto simp: fence_at_def stripPrefix_def split: if_splits option.splits dest!: close)
  show ?thesis
    by (relation "measure (\<lambda>(cur, s). length s)") (auto dest: at)
qed

definition splitBlocks :: "string \<Rightarrow> string list" where
  \<comment> \<open>\<^verbatim>\<open>content.split(/(```[\s\S]*?```)/g)\<close>\<close>
  "splitBlocks content = splitFrom [] content"

definition fence_strip_rule :: rule where
  \<comment> \<open>\<^verbatim>\<open>^```[a-z]*\n|```$\<close> replaced by the empty string\<close>
  "fence_strip_rule prev s =
     (let alt2 = (if s = ''```'' then Some ([], []) else None)
      in if prev = None \<and> prefix ''```'' s
         then (case dropWhile is_lower (drop 3 s) of
                 [] \<Rightarrow> alt2
               | c # rest \<Rightarrow> if c = nl then Some ([], rest) else alt2)
         else alt2)"

datatype node =
    Heading nat string
  | ListNode "string list"
  | LineBreak
  | Paragraph string

datatype block =
    CodeBlock string
  | TextBlock "node list"

type_synonym line_state = "node list \<times> string list"

definition flushListItems :: "line_state \<Rightarrow> line_state" where
  "flushListItems st =
     (case st of (elements, listItems) \<Rightarrow>
        if length listItems > 0
        then (elements @ [ListNode (map (\<lambda>item. applyInlineFormatting (substring item 2)) listItems)], [])
        else (elements, listItems))"

definition processLine :: "line_state \<Rightarrow> string \<Rightarrow> line_state" where
  "processLine st line =
     (if startsWith line ''## '' then
        (case flushListItems st of (elements, listItems) \<Rightarrow>
           (elements @ [Heading 2 (applyInlineFormatting (substring line 3))], listItems))
      else if startsWith line ''### '' then
        (case flushListItems st of (elements, listItems) \<Rightarrow>
           (elements @ [Heading 3 (applyInlineFormatting (substring line 4))], listItems))
      else if startsWith (trim line) ''* '' then
        (case st of (elements, listItems) \<Rightarrow> (elements, listItems @ [line]))
      else if trim line = [] then
        (case flushListItems st of (elements, listItems) \<Rightarrow>
           (if length elements > 0 then elements @ [LineBreak] else elements, listItems))
      else
        (case flushListItems st of (elements, listItems) \<Rightarrow>
           (elements @ [Paragraph (applyInlineFormatting line)], listItems)))"

definition renderLines :: "string list \<Rightarrow> node list" where
  "renderLines lines = fst (flushListItems (foldl processLine ([], []) lines))"

definition renderBlock :: "string \<Rightarrow> block" where
  "renderBlock b =
     (if prefix ''```'' b
      then CodeBlock (escapeHtml (regexReplace fence_strip_rule None b))
      else TextBlock (renderLines (splitLines b)))"

definition renderContent :: "string \<Rightarrow> block list option" where
  \<comment> \<open>\<open>None\<close> is the \<^verbatim>\<open>null\<close> returned for an empty string\<close>
  "renderContent content =
     (if content = [] then None else Some (map renderBlock (splitBlocks content)))"

section \<open>What the rendered markup may contain\<close>

text \<open>
  The texts that the templates of the inline formatter emit around the captured groups, and the
  three entity references of the escape pre-pass.
\<close>

definition tag_texts :: "string list" where
  "tag_texts =
     [a_open, a_class, a_close, ''<strong>'', ''</strong>'', ''<em>'', ''</em>'',
      code_open, code_close]"

definition entity_texts :: "string list" where
  "entity_texts = [''&amp;'', ''&lt;'', ''&gt;'']"

fun fixedMarkupFrom :: "string \<Rightarrow> string \<Rightarrow> bool" where
  \<comment> \<open>the text before the current position, and the text from it on\<close>
  "fixedMarkupFrom before [] = True"
| "fixedMarkupFrom before (c # rest) =
     ((c = CHR ''<'' \<longrightarrow> (\<exists>t \<in> set tag_texts. prefix t (c # rest))) \<and>
      (c = CHR ''>'' \<longrightarrow> (\<exists>t \<in> set tag_texts. suffix t (before @ [c]))) \<and>
      (c = CHR ''&'' \<longrightarrow> (\<exists>t \<in> set entity_texts. prefix t (c # rest))) \<and>
      fixedMarkupFrom (before @ [c]) rest)"

definition onlyFixedMarkup :: "string \<Rightarrow> bool" where
  \<comment> \<open>every \<^verbatim>\<open><\<close> opens and every \<^verbatim>\<open>>\<close> closes one of the emitted tag texts, and every
      \<^verbatim>\<open>&\<close> starts an entity reference\<close>
  "onlyFixedMarkup s \<longleftrightarrow> fixedMarkupFrom [] s"

fun nodeHtml :: "node \<Rightarrow> string list" where
  "nodeHtml (Heading n h) = [h]"
| "nodeHtml (ListNode items) = items"
| "nodeHtml LineBreak = []"
| "nodeHtml (Paragraph h) = [h]"

fun blockHtml :: "block \<Rightarrow> string list" where
  "blockHtml (CodeBlock c) = [c]"
| "blockHtml (TextBlock ns) = concat (map nodeHtml ns)"

definition renderedHtml :: "block list option \<Rightarrow> string list" where
  \<comment> \<open>every string that the renderer hands to the page\<close>
  "renderedHtml r = (case r of None \<Rightarrow> [] | Some bs \<Rightarrow> concat (map blockHtml bs))"

datatype piece = InnerHtml string | TextChild string

fun nodePieces :: "node \<Rightarrow> piece list" where
  \<comment> \<open>how the strings of a node reach the page: headings, list items and paragraphs as the
      \<^verbatim>\<open>__html\<close> of \<^verbatim>\<open>dangerouslySetInnerHTML\<close>\<close>
  "nodePieces (Heading n h) = [InnerHtml h]"
| "nodePieces (ListNode items) = map InnerHtml items"
| "nodePieces LineBreak = []"
| "nodePieces (Paragraph h) = [InnerHtml h]"

fun blockPieces :: "block \<Rightarrow> piece list" where
  \<comment> \<open>the text of a code block is the JSX text child \<^verbatim>\<open>{sanitizedCode}\<close>\<close>
  "blockPieces (CodeBlock c) = [TextChild c]"
| "blockPieces (TextBlock ns) = concat (map nodePieces ns)"

definition textNodeMarkup :: "string \<Rightarrow> string" where
  \<comment> \<open>the markup that stands for a text node: the HTML serialisation of its text\<close>
  "textNodeMarkup t =
     replaceChar CHR ''>'' ''&gt;''
       (replaceChar CHR ''<'' ''&lt;''
         (replaceChar CHR 0xA0 ''&nbsp;''
           (replaceChar CHR ''&'' ''&amp;'' t)))"

definition markupOf :: "piece \<Rightarrow> string" where
  \<comment> \<open>an innerHTML string is the page's markup as it is; a text child is mounted as a text node\<close>
  "markupOf p = (case p of InnerHtml h \<Rightarrow> h | TextChild t \<Rightarrow> textNodeMarkup t)"

fun nodesAfter :: "string list \<Rightarrow> node list" where
  \<comment> \<open>the nodes of the lines that follow once the block has emitted a node: a blank line gives a
      line break, and from the first line that is not blank on, the lines give the nodes they
      give on their own\<close>
  "nodesAfter [] = []"
| "nodesAfter (l # ls) = (if trim l = [] then LineBreak # nodesAfter ls else renderLines (l # ls))"

definition httpUrl :: "string \<Rightarrow> bool" where
  \<comment> \<open>the url begins with an http(s) scheme, something follows the scheme, and no character
      of it is whitespace or a closing parenthesis\<close>
  "httpUrl url \<longleftrightarrow>
     (prefix ''https://'' url \<and> drop 8 url \<noteq> [] \<or> prefix ''http://'' url \<and> drop 7 url \<noteq> [])
     \<and> (\<forall>c \<in> set url. \<not> is_space c \<and> c \<noteq> CHR '')'')"

fun linksHttpOnly :: "string \<Rightarrow> bool" where
  \<comment> \<open>every \<^verbatim>\<open><a\<close> in the text opens an anchor whose \<^verbatim>\<open>href\<close> starts with an http(s) scheme\<close>
  "linksHttpOnly [] = True"
| "linksHttpOnly (c # rest) =
     ((prefix ''<a'' (c # rest) \<longrightarrow>
         prefix (a_open @ ''https://'') (c # rest) \<or> prefix (a_open @ ''http://'') (c # rest)) \<and>
      linksHttpOnly rest)"

text \<open>
  The invariant of the formatter's passes: the text is a sequence of characters other than
  \<^verbatim>\<open><\<close>, \<^verbatim>\<open>>\<close>, \<^verbatim>\<open>&\<close>, of entity references, and of emitted tag texts, where an anchor opens
  together with the scheme of its url.
\<close>

definition emitted_texts :: "string list" where
  "emitted_texts =
     [''&amp;'', ''&lt;'', ''&gt;'', a_open @ ''https://'', a_open @ ''http://'', a_class, a_close,
      ''<strong>'', ''</strong>'', ''<em>'', ''</em>'', code_open, code_close]"

inductive safeMarkup :: "string \<Rightarrow> bool" where
  safe_Nil: "safeMarkup []"
| safe_plain: "c \<notin> {CHR ''<'', CHR ''>'', CHR ''&''} \<Longrightarrow> safeMarkup w \<Longrightarrow> safeMarkup (c # w)"
| safe_text: "t \<in> set emitted_texts \<Longrightarrow> safeMarkup w \<Longrightarrow> safeMarkup (t @ w)"

definition nodesSafe :: "node list \<Rightarrow> bool" where
  "nodesSafe ns \<longleftrightarrow> (\<forall>h \<in> set (concat (map nodeHtml ns)). safeMarkup h)"

definition escapeChar :: "char \<Rightarrow> string" where
  \<comment> \<open>the escape of the specification: one entity reference per special character\<close>
  "escapeChar c =
     (if c = CHR ''&'' then ''&amp;''
      else if c = CHR ''<'' then ''&lt;''
      else if c = CHR ''>'' then ''&gt;''
      else [c])"

section \<open>The interaction shell\<close>

text \<open>
  The state of the \<^verbatim>\<open>App\<close> component that \<^verbatim>\<open>handleGeneratePost\<close> reads and writes (the theme
  is left out). The handler is a closure of the render that created it: the \<^verbatim>\<open>prompt\<close> and
  \<^verbatim>\<open>isLoading\<close> it reads are those of the last committed render, while the setters it calls
  update the state that the next render will see. The call of \<^verbatim>\<open>generateBlogPost\<close> is a request
  that is outstanding until its promise settles; the code after \<^verbatim>\<open>await\<close> runs when it does.
\<close>

record shell =
  prompt :: string
  generatedPost :: string
  isLoading :: bool
  error :: "string option"

definition handleGeneratePost :: "shell \<Rightarrow> shell \<Rightarrow> shell \<times> string option" where
  \<comment> \<open>the synchronous part, given the state the closure saw and the state to update: the
      updated state, and the prompt of the request issued, if any\<close>
  "handleGeneratePost seen st =
     (if trim (prompt seen) = [] \<or> isLoading seen then (st, None)
      else (st\<lparr>isLoading := True, error := None, generatedPost := []\<rparr>, Some (prompt seen)))"

datatype rejection = ErrorObject string | OtherValue

definition errorMessage :: "rejection \<Rightarrow> string" where
  "errorMessage e = (case e of ErrorObject msg \<Rightarrow> msg | OtherValue \<Rightarrow> ''An unknown error occurred.'')"

definition requestResolved :: "shell \<Rightarrow> string \<Rightarrow> shell" where
  "requestResolved st result = st\<lparr>generatedPost := result, isLoading := False\<rparr>"

definition requestRejected :: "shell \<Rightarrow> rejection \<Rightarrow> shell" where
  "requestRejected st e = st\<lparr>error := Some (errorMessage e), isLoading := False\<rparr>"

datatype event = SetPrompt string | Render | Invoke | Resolve string | Reject rejection

record app =
  rendered :: shell
  latest :: shell
  inFlight :: "string list"

fun step :: "app \<Rightarrow> event \<Rightarrow> app" where
  \<comment> \<open>\<open>rendered\<close> is the state of the last committed render, \<open>latest\<close> the state with the
      updates made since, \<open>inFlight\<close> the prompts of the outstanding requests. A promise can
      settle only while its request is outstanding; which of several settles does not matter
      for their number, and the oldest is taken.\<close>
  "step a (SetPrompt p) = a\<lparr>latest := (latest a)\<lparr>prompt := p\<rparr>\<rparr>"
| "step a Render = a\<lparr>rendered := latest a\<rparr>"
| "step a Invoke =
     (case handleGeneratePost (rendered a) (latest a) of
        (st', None) \<Rightarrow> a\<lparr>latest := st'\<rparr>
      | (st', Some req) \<Rightarrow> a\<lparr>latest := st', inFlight := inFlight a @ [req]\<rparr>)"
| "step a (Resolve result) =
     (case inFlight a of
        [] \<Rightarrow> a
      | req # others \<Rightarrow> a\<lparr>latest := requestResolved (latest a) result, inFlight := others\<rparr>)"
| "step a (Reject e) =
     (case inFlight a of
        [] \<Rightarrow> a
      | req # others \<Rightarrow> a\<lparr>latest := requestRejected (latest a) e, inFlight := others\<rparr>)"

definition initialShell :: shell where
  "initialShell = \<lparr>prompt = [], generatedPost = [], isLoading = False, error = None\<rparr>"

definition initialApp :: app where
  "initialApp = \<lparr>rendered = initialShell, latest = initialShell, inFlight = []\<rparr>"

definition run :: "event list \<Rightarrow> app" where
  "run evs = foldl step initialApp evs"

fun rendersBetweenInvokes :: "bool \<Rightarrow> event list \<Rightarrow> bool" where
  \<comment> \<open>every invocation comes from a render committed after the invocation before it; the flag
      says whether a render has been committed since the last invocation\<close>
  "rendersBetweenInvokes fresh [] = True"
| "rendersBetweenInvokes fresh (Render # evs) = rendersBetweenInvokes True evs"
| "rendersBetweenInvokes fresh (Invoke # evs) = (fresh \<and> rendersBetweenInvokes False evs)"
| "rendersBetweenInvokes fresh (SetPrompt p # evs) = rendersBetweenInvokes fresh evs"
| "rendersBetweenInvokes fresh (Resolve r # evs) = rendersBetweenInvokes fresh evs"
| "rendersBetweenInvokes fresh (Reject e # evs) = rendersBetweenInvokes fresh evs"

definition shellInv :: "bool \<Rightarrow> app \<Rightarrow> bool" where
  \<comment> \<open>at most one request is in flight, the loading flag says whether one is, and a render
      committed since the last invocation has seen the flag\<close>
  "shellInv fresh a \<longleftrightarrow>
     length (inFlight a) \<le> 1 \<and> (isLoading (latest a) \<longleftrightarrow> inFlight a \<noteq> [])
     \<and> (fresh \<longrightarrow> isLoading (latest a) \<longrightarrow> isLoading (rendered a))"

section \<open>The block splitter\<close>

lemma fence_close_decomp:
  "fence_close s = Some (body, rest) \<Longrightarrow> s = body @ ''```'' @ rest"
proof (induction s arbitrary: body)
  case Nil
  then show ?case by simp
next
  case (Cons c t)
  show ?case
  proof (cases "prefix ''```'' (c # t)")
    case True
    then have "fence_close (c # t) = Some ([], drop 3 (c # t))"
      by (simp only: fence_close.simps if_True)
    with Cons.prems have "body = []" "rest = drop 3 (c # t)" by simp_all
    moreover from True have "c # t = ''```'' @ drop 3 (c # t)"
      by (auto simp: prefix_def)
    ultimately show ?thesis by simp
  next
    case False
    then have "fence_close (c # t) =
        (case fence_close t of None \<Rightarrow> None | Some (b, r) \<Rightarrow> Some (c # b, r))"
      by (simp only: fence_close.simps if_False)
    with Cons.prems obtain b where b: "fence_close t = Some (b, rest)" "body = c # b"
      by (auto split: option.splits)
    from Cons.IH [OF b(1)] b(2) show ?thesis by simp
  qed
qed

lemma stripPrefix_Some: "stripPrefix p s = Some r \<Longrightarrow> s = p @ r"
  by (auto simp: stripPrefix_def prefix_def split: if_splits)

lemma fence_at_decomp: "fence_at s = Some (m, rest) \<Longrightarrow> s = m @ rest"
  by (auto simp: fence_at_def split: option.splits
      dest!: stripPrefix_Some fence_close_decomp)

lemma concat_splitFrom: "concat (splitFrom cur s) = cur @ s"
proof (induction cur s rule: splitFrom.induct)
  case (1 cur)
  show ?case by simp
next
  case (2 cur c t)
  show ?case
  proof (cases "fence_at (c # t)")
    case None
    with 2 show ?thesis by simp
  next
    case (Some a)
    obtain m rest where a: "a = (m, rest)" by (cases a)
    have unfold: "splitFrom cur (c # t) = cur # m # splitFrom [] rest"
      using Some a by simp
    have ih: "concat (splitFrom [] rest) = rest"
      using "2.IH" Some a by auto
    have dec: "c # t = m @ rest"
      using Some a by (auto dest: fence_at_decomp)
    have "concat (splitFrom cur (c # t)) = cur @ m @ concat (splitFrom [] rest)"
      by (simp only: unfold concat.simps)
    also have "\<dots> = cur @ m @ rest"
      by (simp only: ih)
    also have "\<dots> = cur @ c # t"
      by (simp only: dec)
    finally show ?thesis .
  qed
qed

text \<open>
  C6. The block splitter is lossless and order-preserving: concatenating the produced blocks in
  order, each fenced block with its delimiters, gives back the input string.
\<close>

theorem C6_splitBlocks_lossless: "concat (splitBlocks content) = content"
  by (simp add: splitBlocks_def concat_splitFrom)

theorem C6_witness:
  "splitBlocks ''a```b```c```d'' = [''a'', ''```b```'', ''c```d'']
   \<and> concat (splitBlocks ''a```b```c```d'') = ''a```b```c```d''"
proof -
  have "splitBlocks ''a```b```c```d'' = [''a'', ''```b```'', ''c```d'']" by code_simp
  with C6_splitBlocks_lossless [of "''a```b```c```d''"] show ?thesis by (simp only: simp_thms)
qed

text \<open>
  C3. An opening fence without a closing fence is not matched by the splitter, so the input stays
  one block; but that block begins with three backticks, which is all the code-block test looks
  at, and the renderer emits a CodeBlock node for the unterminated region. When other text comes
  before the opening fence in the same block, the region is rendered as ordinary paragraphs.
\<close>

theorem C3_unterminated_fence_rendered_as_code:
  "splitBlocks (''```js'' @ [nl] @ ''let x = 1;'') = [''```js'' @ [nl] @ ''let x = 1;'']
   \<and> renderContent (''```js'' @ [nl] @ ''let x = 1;'') = Some [CodeBlock ''let x = 1;'']
   \<and> renderContent (''see ```js'' @ [nl] @ ''let x = 1;'')
       = Some [TextBlock [Paragraph ''see ```js'', Paragraph ''let x = 1;'']]"
  by code_simp

section \<open>The escape pre-pass, rule by rule\<close>

lemma safe_append: "safeMarkup a \<Longrightarrow> safeMarkup b \<Longrightarrow> safeMarkup (a @ b)"
proof (induction rule: safeMarkup.induct)
  case safe_Nil
  then show ?case by simp
next
  case (safe_plain c w)
  then show ?case by (simp add: safeMarkup.safe_plain)
next
  case (safe_text t w)
  then have "safeMarkup (w @ b)" by simp
  with safe_text.hyps(1) have "safeMarkup (t @ (w @ b))" by (rule safeMarkup.safe_text)
  then show ?case by simp
qed

lemma safe_split:
  assumes "safeMarkup s" and "s = x @ c # y"
    and "c \<notin> set (concat emitted_texts)"
  shows "safeMarkup x \<and> safeMarkup y"
  using assms
proof (induction arbitrary: x rule: safeMarkup.induct)
  case safe_Nil
  then show ?case by simp
next
  case (safe_plain d w)
  show ?case
  proof (cases x)
    case Nil
    with safe_plain.prems safe_plain.hyps show ?thesis
      by (simp add: safeMarkup.safe_Nil)
  next
    case (Cons e x')
    with safe_plain.prems have "w = x' @ c # y" "e = d" by simp_all
    with safe_plain.IH [of x'] safe_plain.prems(2) safe_plain.hyps(1) Cons show ?thesis
      by (simp add: safeMarkup.safe_plain)
  qed
next
  case (safe_text t w)
  from safe_text.prems(1) obtain u where
    u: "(t = x @ u \<and> u @ w = c # y) \<or> (t @ u = x \<and> w = u @ c # y)"
    by (auto simp: append_eq_append_conv2)
  show ?case
  proof (cases "t @ u = x \<and> w = u @ c # y")
    case True
    with safe_text.IH [of u] safe_text.prems(2) have "safeMarkup u" "safeMarkup y" by simp_all
    moreover from \<open>safeMarkup u\<close> safe_text.hyps(1) have "safeMarkup (t @ u)"
      by (rule safeMarkup.safe_text [rotated])
    ultimately show ?thesis using True by simp
  next
    case False
    with u have tu: "t = x @ u" "u @ w = c # y" by simp_all
    have "u = []"
    proof (rule ccontr)
      assume "u \<noteq> []"
      with tu(2) obtain u' where "u = c # u'" by (cases u) auto
      with tu(1) have "c \<in> set t" by simp
      with safe_text.hyps(1) safe_text.prems(2) show False by auto
    qed
    with tu have "x = t" "w = [] @ c # y" by simp_all
    with safe_text.IH [of "[]"] safe_text.prems(2) have "safeMarkup y" by simp
    moreover have "safeMarkup (t @ [])"
      using safe_text.hyps(1) by (rule safeMarkup.safe_text) (rule safeMarkup.safe_Nil)
    ultimately show ?thesis using \<open>x = t\<close> by simp
  qed
qed

lemma safe_plain_text: "\<forall>c \<in> set s. c \<notin> {CHR ''<'', CHR ''>'', CHR ''&''} \<Longrightarrow> safeMarkup s"
  by (induction s) (auto intro: safeMarkup.intros)

lemma safe_token: "t \<in> set emitted_texts \<Longrightarrow> safeMarkup t"
  using safeMarkup.safe_text [of t "[]"] by (simp add: safeMarkup.safe_Nil)

lemma regexReplace_safe:
  assumes rule_ok: "\<And>p prev s out rest. m prev s = Some (out, rest) \<Longrightarrow> safeMarkup (p @ s)
      \<Longrightarrow> length rest < length s \<and> safeMarkup (p @ out) \<and> safeMarkup rest"
  shows "safeMarkup (p @ s) \<Longrightarrow> safeMarkup (p @ regexReplace m prev s)"
proof (induction s arbitrary: p prev rule: length_induct)
  case (1 s)
  note IH = "1.IH" [rule_format]
  show ?case
  proof (cases "m prev s")
    case None
    show ?thesis
    proof (cases s)
      case Nil
      with None "1.prems" show ?thesis by simp
    next
      case (Cons c t)
      from "1.prems" Cons have "safeMarkup ((p @ [c]) @ t)" by simp
      then have "safeMarkup ((p @ [c]) @ regexReplace m (Some c) t)"
        using Cons by (intro IH) simp_all
      with None Cons show ?thesis by simp
    qed
  next
    case (Some a)
    obtain out rest where a: "a = (out, rest)" by (cases a)
    from Some a have hit: "m prev s = Some (out, rest)" by simp
    from rule_ok [OF hit "1.prems"]
    have ok: "length rest < length s" "safeMarkup (p @ out)" "safeMarkup rest"
      by simp_all
    from ok(1) obtain c t where s: "s = c # t" by (cases s) auto
    have "safeMarkup ([] @ regexReplace m (lastConsumed s rest) rest)"
      using ok(1,3) by (intro IH) simp_all
    with ok(2) have "safeMarkup ((p @ out) @ regexReplace m (lastConsumed s rest) rest)"
      by (simp only: append_Nil safe_append)
    moreover have "regexReplace m prev s = out @ regexReplace m (lastConsumed s rest) rest"
      using hit ok(1) s by simp
    ultimately show ?thesis by simp
  qed
qed


lemma replaceChar_Nil: "replaceChar c r [] = []"
  by (simp add: replaceChar_def)

lemma replaceChar_append: "replaceChar c r (a @ b) = replaceChar c r a @ replaceChar c r b"
  by (simp add: replaceChar_def)

lemma replaceChar_Cons: "replaceChar c r (x # xs) = (if x = c then r else [x]) @ replaceChar c r xs"
  by (simp add: replaceChar_def)

lemma escapeHtml_Nil: "escapeHtml [] = []"
  by (simp add: escapeHtml_def replaceChar_def)

lemma escapeHtml_Cons: "escapeHtml (x # xs) = escapeChar x @ escapeHtml xs"
  by (simp add: escapeHtml_def escapeChar_def replaceChar_Cons replaceChar_append replaceChar_Nil)

lemma escapeHtml_concat: "escapeHtml raw = concat (map escapeChar raw)"
  by (induction raw) (simp_all add: escapeHtml_Nil escapeHtml_Cons)

lemma escapeHtml_append: "escapeHtml (a @ b) = escapeHtml a @ escapeHtml b"
  by (simp add: escapeHtml_concat)

lemma safe_escapeHtml: "safeMarkup (escapeHtml raw)"
proof (induction raw)
  case Nil
  show ?case by (simp add: escapeHtml_Nil safeMarkup.safe_Nil)
next
  case (Cons c raw)
  show ?case
  proof (cases "c \<in> {CHR ''<'', CHR ''>'', CHR ''&''}")
    case False
    then have "escapeChar c = [c]" by (auto simp: escapeChar_def)
    with Cons False show ?thesis
      by (simp add: escapeHtml_Cons safeMarkup.safe_plain)
  next
    case True
    then have "escapeChar c \<in> set emitted_texts"
      by (auto simp: escapeChar_def emitted_texts_def)
    from safeMarkup.safe_text [OF this Cons] show ?thesis
      by (simp add: escapeHtml_Cons)
  qed
qed

lemma split_at_first:
  assumes "dropWhile (\<lambda>x. x \<noteq> d) t = e # rest"
  shows "t = takeWhile (\<lambda>x. x \<noteq> d) t @ d # rest"
proof -
  from assms have "dropWhile (\<lambda>x. x \<noteq> d) t \<noteq> []" by simp
  then have "\<not> (hd (dropWhile (\<lambda>x. x \<noteq> d) t) \<noteq> d)"
    by (rule hd_dropWhile)
  with assms have "e = d" by simp
  with assms takeWhile_dropWhile_id [of "\<lambda>x. x \<noteq> d" t] show ?thesis by simp
qed

lemma delimited_at_decomp:
  assumes "delimited_at d s = Some (g, rest)"
  shows "s = d # g @ d # rest \<and> g \<noteq> [] \<and> d \<notin> set g"
proof -
  from assms obtain t where s: "s = d # t"
    by (cases s) (auto simp: delimited_at_def split: if_splits)
  from assms s have g: "g = takeWhile (\<lambda>x. x \<noteq> d) t" "g \<noteq> []"
    by (auto simp: delimited_at_def Let_def split: if_splits list.splits)
  from assms s obtain e where "dropWhile (\<lambda>x. x \<noteq> d) t = e # rest"
    by (auto simp: delimited_at_def Let_def split: if_splits list.splits)
  from split_at_first [OF this] g(1) have "t = g @ d # rest" by simp
  moreover from g(1) have "d \<notin> set g" by (auto dest: set_takeWhileD)
  ultimately show ?thesis using s g(2) by simp
qed

lemma bold_close_decomp:
  "bold_close s = Some (g, rest) \<Longrightarrow> s = g @ ''**'' @ rest"
proof (induction s arbitrary: g)
  case Nil
  then show ?case by simp
next
  case (Cons c t)
  show ?case
  proof (cases "prefix ''**'' (c # t)")
    case True
    then have "bold_close (c # t) = Some ([], drop 2 (c # t))"
      by (simp only: bold_close.simps if_True)
    with Cons.prems have "g = []" "rest = drop 2 (c # t)" by simp_all
    moreover from True have "c # t = ''**'' @ drop 2 (c # t)"
      by (auto simp: prefix_def)
    ultimately show ?thesis by simp
  next
    case False
    then have "bold_close (c # t) =
        (if is_line_terminator c then None
         else (case bold_close t of None \<Rightarrow> None | Some (b, r) \<Rightarrow> Some (c # b, r)))"
      by (simp only: bold_close.simps if_False)
    with Cons.prems obtain b where b: "bold_close t = Some (b, rest)" "g = c # b"
      by (auto split: option.splits if_splits)
    from Cons.IH [OF b(1)] b(2) show ?thesis by simp
  qed
qed

lemma bold_at_decomp: "bold_at s = Some (g, rest) \<Longrightarrow> s = ''**'' @ g @ ''**'' @ rest"
  by (auto simp: bold_at_def split: option.splits dest!: stripPrefix_Some bold_close_decomp)

lemma star_at_decomp:
  assumes "star_at prev s = Some (g, rest)"
  shows "s = CHR ''*'' # g @ CHR ''*'' # rest"
proof -
  from assms obtain d u where s: "s = CHR ''*'' # d # u"
    by (cases s; cases "tl s") (auto simp: star_at_def split: if_splits)
  from assms s have g: "g = d # takeWhile (\<lambda>x. x \<noteq> CHR ''*'') u"
    by (auto simp: star_at_def Let_def split: if_splits list.splits)
  from assms s obtain e where "dropWhile (\<lambda>x. x \<noteq> CHR ''*'') u = e # rest"
    by (auto simp: star_at_def Let_def split: if_splits list.splits)
  from split_at_first [OF this] g s show ?thesis by simp
qed

lemma scheme_at_decomp:
  "scheme_at s = Some (sch, r) \<Longrightarrow> s = sch @ r \<and> (sch = ''https://'' \<or> sch = ''http://'')"
  by (auto simp: scheme_at_def split: option.splits dest!: stripPrefix_Some)

lemma link_at_decomp:
  assumes "link_at s = Some (label, url, rest)"
  shows "s = CHR ''['' # label @ '']('' @ url @ CHR '')'' # rest
    \<and> label \<noteq> [] \<and> CHR '']'' \<notin> set label
    \<and> (\<exists>sch more. url = sch @ more \<and> (sch = ''https://'' \<or> sch = ''http://'')
          \<and> more \<noteq> [] \<and> (\<forall>c \<in> set more. url_char c))"
proof -
  from assms obtain s1 where s: "s = CHR ''['' # s1"
    by (cases s) (auto simp: link_at_def split: if_splits)
  define r1 where "r1 = dropWhile (\<lambda>x. x \<noteq> CHR '']'') s1"
  from assms s have label: "label = takeWhile (\<lambda>x. x \<noteq> CHR '']'') s1" "label \<noteq> []"
    by (auto simp: link_at_def Let_def split: if_splits list.splits option.splits)
  from assms s obtain r2 sch r3 where
    r2: "stripPrefix '']('' r1 = Some r2" and sch: "scheme_at r2 = Some (sch, r3)"
    by (auto simp: link_at_def Let_def r1_def split: if_splits list.splits option.splits)
  from assms s r2 sch have
    url: "url = sch @ takeWhile url_char r3" "takeWhile url_char r3 \<noteq> []"
    and r4: "dropWhile url_char r3 = CHR '')'' # rest"
    by (auto simp: link_at_def Let_def r1_def split: if_splits list.splits option.splits)
  from r2 have r1: "r1 = '']('' @ r2" by (rule stripPrefix_Some)
  then have "dropWhile (\<lambda>x. x \<noteq> CHR '']'') s1 = CHR '']'' # CHR ''('' # r2"
    by (simp add: r1_def)
  from split_at_first [OF this] label(1) have s1: "s1 = label @ '']('' @ r2" by simp
  from scheme_at_decomp [OF sch] have r2': "r2 = sch @ r3" "sch = ''https://'' \<or> sch = ''http://''"
    by simp_all
  from takeWhile_dropWhile_id [of url_char r3] r4
  have r3: "r3 = takeWhile url_char r3 @ CHR '')'' # rest" by simp
  have "s = CHR ''['' # label @ '']('' @ url @ CHR '')'' # rest"
    using s s1 r2'(1) r3 url(1) by simp
  moreover have "CHR '']'' \<notin> set label"
    using label(1) by (auto dest: set_takeWhileD)
  moreover have "\<forall>c \<in> set (takeWhile url_char r3). url_char c"
    by (auto dest: set_takeWhileD)
  ultimately show ?thesis using label(2) url r2'(2) by blast
qed


lemma marker_chars:
  "c \<in> {CHR ''['', CHR '']'', CHR ''('', CHR '')'', CHR ''*'', CHR ''_'', CHR ''`''}
    \<Longrightarrow> c \<notin> set (concat emitted_texts)"
  unfolding emitted_texts_def a_open_def a_class_def a_close_def code_open_def code_close_def
  by auto

lemma safe_cut:
  assumes "safeMarkup (x @ c # y)"
    and "c \<in> {CHR ''['', CHR '']'', CHR ''('', CHR '')'', CHR ''*'', CHR ''_'', CHR ''`''}"
  shows "safeMarkup x" and "safeMarkup y"
  using safe_split [OF assms(1) refl marker_chars [OF assms(2)]] by simp_all

lemma safe_tags:
  "safeMarkup (a_open @ ''https://'')" "safeMarkup a_class" "safeMarkup a_close"
  "safeMarkup ''<strong>''" "safeMarkup ''</strong>''" "safeMarkup ''<em>''" "safeMarkup ''</em>''"
  "safeMarkup code_open" "safeMarkup code_close"
  "safeMarkup (a_open @ ''http://'')"
  by (rule safe_token, simp add: emitted_texts_def)+

lemma safe_a_attrs: "safeMarkup a_attrs"
  by (rule safe_plain_text) (simp add: a_attrs_def)

lemma safe_wrap:
  assumes "safeMarkup p" "safeMarkup pre" "safeMarkup g" "safeMarkup post"
  shows "safeMarkup (p @ pre @ g @ post)"
  using assms by (intro safe_append)

lemma delimited_ok:
  assumes hit: "delimited_at d s = Some (g, rest)" and safe: "safeMarkup (p @ s)"
    and d: "d \<in> {CHR ''_'', CHR ''`''}"
    and pre: "safeMarkup pre" and post: "safeMarkup post"
  shows "length rest < length s \<and> safeMarkup (p @ pre @ g @ post) \<and> safeMarkup rest"
proof -
  from delimited_at_decomp [OF hit] have s: "s = d # g @ d # rest" by simp
  from d have d': "d \<in> {CHR ''['', CHR '']'', CHR ''('', CHR '')'', CHR ''*'', CHR ''_'', CHR ''`''}"
    by auto
  from safe s have 1: "safeMarkup (p @ d # (g @ d # rest))" by simp
  from safe_cut [OF 1 d'] have p: "safeMarkup p" and 2: "safeMarkup (g @ d # rest)" .
  from safe_cut [OF 2 d'] have g: "safeMarkup g" and rest: "safeMarkup rest" .
  from s have "length rest < length s" by simp
  with safe_wrap [OF p pre g post] rest show ?thesis by simp
qed

lemma underscore_rule_ok:
  assumes "underscore_rule prev s = Some (out, rest)" "safeMarkup (p @ s)"
  shows "length rest < length s \<and> safeMarkup (p @ out) \<and> safeMarkup rest"
proof -
  from assms(1) obtain g where hit: "delimited_at CHR ''_'' s = Some (g, rest)"
    and out: "out = ''<em>'' @ g @ ''</em>''"
    by (auto simp: underscore_rule_def split: option.splits)
  from delimited_ok [OF hit assms(2) _ safe_tags(6) safe_tags(7)] out show ?thesis by simp
qed

lemma code_rule_ok:
  assumes "code_rule prev s = Some (out, rest)" "safeMarkup (p @ s)"
  shows "length rest < length s \<and> safeMarkup (p @ out) \<and> safeMarkup rest"
proof -
  from assms(1) obtain g where hit: "delimited_at CHR ''`'' s = Some (g, rest)"
    and out: "out = code_open @ g @ code_close"
    by (auto simp: code_rule_def split: option.splits)
  from delimited_ok [OF hit assms(2) _ safe_tags(8) safe_tags(9)] out show ?thesis by simp
qed

lemma star_rule_ok:
  assumes "star_rule prev s = Some (out, rest)" "safeMarkup (p @ s)"
  shows "length rest < length s \<and> safeMarkup (p @ out) \<and> safeMarkup rest"
proof -
  from assms(1) obtain g where hit: "star_at prev s = Some (g, rest)"
    and out: "out = ''<em>'' @ g @ ''</em>''"
    by (auto simp: star_rule_def split: option.splits)
  from star_at_decomp [OF hit] have s: "s = CHR ''*'' # g @ CHR ''*'' # rest" .
  from assms(2) s have 1: "safeMarkup (p @ CHR ''*'' # (g @ CHR ''*'' # rest))" by simp
  from safe_cut [OF 1] have p: "safeMarkup p" and 2: "safeMarkup (g @ CHR ''*'' # rest)"
    by simp_all
  from safe_cut [OF 2] have g: "safeMarkup g" and rest: "safeMarkup rest" by simp_all
  from s have "length rest < length s" by simp
  with safe_wrap [OF p safe_tags(6) g safe_tags(7)] rest out show ?thesis by simp
qed

lemma bold_rule_ok:
  assumes "bold_rule prev s = Some (out, rest)" "safeMarkup (p @ s)"
  shows "length rest < length s \<and> safeMarkup (p @ out) \<and> safeMarkup rest"
proof -
  from assms(1) obtain g where hit: "bold_at s = Some (g, rest)"
    and out: "out = ''<strong>'' @ g @ ''</strong>''"
    by (auto simp: bold_rule_def split: option.splits)
  from bold_at_decomp [OF hit] have s: "s = ''**'' @ g @ ''**'' @ rest" .
  from assms(2) s have 1: "safeMarkup (p @ CHR ''*'' # (CHR ''*'' # g @ ''**'' @ rest))" by simp
  from safe_cut [OF 1] have p: "safeMarkup p"
    and 2: "safeMarkup ([] @ CHR ''*'' # (g @ CHR ''*'' # (CHR ''*'' # rest)))"
    by simp_all
  from safe_cut(2) [OF 2] have 3: "safeMarkup (g @ CHR ''*'' # (CHR ''*'' # rest))" by simp
  from safe_cut [OF 3] have g: "safeMarkup g" and 4: "safeMarkup ([] @ CHR ''*'' # rest)"
    by simp_all
  from safe_cut(2) [OF 4] have rest: "safeMarkup rest" by simp
  from s have "length rest < length s" by simp
  with safe_wrap [OF p safe_tags(4) g safe_tags(5)] rest out show ?thesis by simp
qed

lemma safe_skip:
  assumes "safeMarkup (x @ y)" and "\<forall>c \<in> set x. c \<notin> {CHR ''<'', CHR ''>'', CHR ''&'', CHR '' ''}"
  shows "safeMarkup y"
  using assms
proof (induction x)
  case Nil
  then show ?case by simp
next
  case (Cons c x)
  from Cons.prems(1) have "safeMarkup (c # (x @ y))" by simp
  then consider (plain) "safeMarkup (x @ y)"
    | (tok) t w where "c # (x @ y) = t @ w" "t \<in> set emitted_texts"
    by (subst (asm) safeMarkup.simps) auto
  then have "safeMarkup (x @ y)"
  proof cases
    case plain
    then show ?thesis .
  next
    case (tok t w)
    from tok(2) have "hd t \<in> {CHR ''<'', CHR ''>'', CHR ''&'', CHR '' ''} \<and> t \<noteq> []"
      unfolding emitted_texts_def a_open_def a_class_def a_close_def code_open_def code_close_def
      by auto
    with tok(1) have "c \<in> {CHR ''<'', CHR ''>'', CHR ''&'', CHR '' ''}"
      by (cases t) auto
    with Cons.prems(2) show ?thesis by simp
  qed
  with Cons show ?case by simp
qed

lemma link_rule_ok:
  assumes "link_rule prev s = Some (out, rest)" "safeMarkup (p @ s)"
  shows "length rest < length s \<and> safeMarkup (p @ out) \<and> safeMarkup rest"
proof -
  from assms(1) obtain label url where hit: "link_at s = Some (label, url, rest)"
    and out: "out = linkTemplate label url"
    by (auto simp: link_rule_def split: option.splits)
  from link_at_decomp [OF hit]
  obtain sch more where s: "s = CHR ''['' # label @ '']('' @ url @ CHR '')'' # rest"
    and url: "url = sch @ more" and sch: "sch = ''https://'' \<or> sch = ''http://''"
    by blast
  from assms(2) s
  have 1: "safeMarkup (p @ CHR ''['' # (label @ CHR '']'' # (CHR ''('' # url @ CHR '')'' # rest)))"
    by simp
  from safe_cut [OF 1] have p: "safeMarkup p"
    and 2: "safeMarkup (label @ CHR '']'' # (CHR ''('' # url @ CHR '')'' # rest))"
    by simp_all
  from safe_cut [OF 2] have label: "safeMarkup label"
    and 3: "safeMarkup ([] @ CHR ''('' # (url @ CHR '')'' # rest))"
    by simp_all
  from safe_cut(2) [OF 3] have 4: "safeMarkup (url @ CHR '')'' # rest)" by simp
  from safe_cut [OF 4] have "safeMarkup url" and rest: "safeMarkup rest" by simp_all
  with url have "safeMarkup (sch @ more)" by simp
  then have more: "safeMarkup more"
    by (rule safe_skip) (use sch in auto)
  from sch have opn: "safeMarkup (a_open @ sch)"
    using safe_tags(1,10) by auto
  have tail: "safeMarkup (more @ a_attrs @ a_class @ label @ a_close)"
    using more label safe_tags(2,3) safe_a_attrs by (intro safe_append)
  have "safeMarkup (p @ (a_open @ sch) @ more @ a_attrs @ a_class @ label @ a_close)"
    by (rule safe_append [OF p safe_append [OF opn tail]])
  moreover from s have "length rest < length s" by simp
  ultimately show ?thesis using rest out url by (simp add: linkTemplate_def)
qed

lemma safe_applyInlineFormatting: "safeMarkup (applyInlineFormatting raw)"
proof -
  have 0: "safeMarkup ([] @ escapeHtml raw)"
    by (simp add: safe_escapeHtml)
  note 1 = regexReplace_safe [where m = link_rule and prev = None, OF link_rule_ok 0]
  note 2 = regexReplace_safe [where m = bold_rule and prev = None, OF bold_rule_ok 1]
  note 3 = regexReplace_safe [where m = underscore_rule and prev = None, OF underscore_rule_ok 2]
  note 4 = regexReplace_safe [where m = star_rule and prev = None, OF star_rule_ok 3]
  note 5 = regexReplace_safe [where m = code_rule and prev = None, OF code_rule_ok 4]
  from 5 show ?thesis by (simp add: applyInlineFormatting_def)
qed

section \<open>From the invariant to the rendered markup\<close>

lemma tok1: "\<forall>t \<in> set emitted_texts. CHR ''<'' \<notin> set (tl t) \<and> CHR ''&'' \<notin> set (tl t)"
  unfolding emitted_texts_def a_open_def a_class_def a_close_def code_open_def code_close_def
  by simp

lemma tok2: "\<forall>t \<in> set emitted_texts. CHR ''>'' \<notin> set (butlast t)"
  unfolding emitted_texts_def a_open_def a_class_def a_close_def code_open_def code_close_def
  by simp

lemma tok3: "\<forall>t \<in> set emitted_texts.
    (hd t = CHR ''<'' \<longrightarrow> (\<exists>t' \<in> set tag_texts. prefix t' t)) \<and>
    (hd t = CHR ''&'' \<longrightarrow> t \<in> set entity_texts) \<and>
    (last t = CHR ''>'' \<longrightarrow> t \<in> set tag_texts)"
  unfolding emitted_texts_def entity_texts_def tag_texts_def
  unfolding a_open_def a_class_def a_close_def code_open_def code_close_def
  by simp

lemma tok4: "\<forall>t \<in> set emitted_texts. prefix ''<a'' t \<longrightarrow>
    t = a_open @ ''https://'' \<or> t = a_open @ ''http://''"
  unfolding emitted_texts_def a_open_def a_class_def a_close_def code_open_def code_close_def
  by simp

lemma token_facts:
  assumes "t \<in> set emitted_texts"
  shows "CHR ''<'' \<notin> set (tl t)" and "hd t = CHR ''<'' \<Longrightarrow> \<exists>t' \<in> set tag_texts. prefix t' t"
    and "CHR ''&'' \<notin> set (tl t)" and "hd t = CHR ''&'' \<Longrightarrow> t \<in> set entity_texts"
    and "CHR ''>'' \<notin> set (butlast t)" and "last t = CHR ''>'' \<Longrightarrow> t \<in> set tag_texts"
  using tok1 [rule_format, OF assms] tok2 [rule_format, OF assms] tok3 [rule_format, OF assms]
  by blast+

lemma token_first:
  assumes t: "t \<in> set emitted_texts" and eq: "t = u @ c # z"
    and c: "c \<notin> set (tl t)"
  shows "u = []" and "hd t = c"
proof -
  show "u = []"
  proof (rule ccontr)
    assume "u \<noteq> []"
    with eq have "tl t = tl u @ c # z" by simp
    with c show False by simp
  qed
  with eq show "hd t = c" by simp
qed

lemma token_last:
  assumes eq: "t = u @ c # z" and c: "c \<notin> set (butlast t)"
  shows "z = []" and "last t = c"
proof -
  show "z = []"
  proof (rule ccontr)
    assume "z \<noteq> []"
    with eq have "butlast t = u @ c # butlast z" by (simp add: butlast_append)
    with c show False by simp
  qed
  with eq show "last t = c" by simp
qed

lemma safe_opens:
  assumes "safeMarkup s" and "s = u @ c # v" and "c = CHR ''<'' \<or> c = CHR ''&''"
  shows "\<exists>t \<in> set emitted_texts. hd t = c \<and> prefix t (c # v)"
  using assms
proof (induction arbitrary: u rule: safeMarkup.induct)
  case safe_Nil
  then show ?case by simp
next
  case (safe_plain d w)
  from safe_plain.prems safe_plain.hyps(1) obtain u' where "u = d # u'" "w = u' @ c # v"
    by (cases u) auto
  with safe_plain.IH [of u'] safe_plain.prems(2) show ?case by simp
next
  case (safe_text t w)
  from safe_text.prems(1) obtain z where
    z: "(t = u @ z \<and> z @ w = c # v) \<or> (t @ z = u \<and> w = z @ c # v)"
    by (auto simp: append_eq_append_conv2)
  show ?case
  proof (cases "t @ z = u \<and> w = z @ c # v")
    case True
    with safe_text.IH [of z] safe_text.prems(2) show ?thesis by simp
  next
    case False
    with z have tz: "t = u @ z" "z @ w = c # v" by simp_all
    show ?thesis
    proof (cases z)
      case Nil
      with tz have "w = [] @ c # v" by simp
      with safe_text.IH [of "[]"] safe_text.prems(2) show ?thesis by simp
    next
      case (Cons e z')
      with tz have t: "t = u @ c # z'" and v: "v = z' @ w" by simp_all
      from token_facts(1,3) [OF safe_text.hyps(1)] safe_text.prems(2)
      have "c \<notin> set (tl t)" by auto
      from token_first [OF safe_text.hyps(1) t this] have u: "u = []" and hd: "hd t = c" .
      from t u v have "prefix t (c # v)" by simp
      with hd safe_text.hyps(1) show ?thesis by blast
    qed
  qed
qed

lemma safe_closes:
  assumes "safeMarkup s" and "s = u @ CHR ''>'' # v"
  shows "\<exists>t \<in> set tag_texts. suffix t (u @ ''>'')"
  using assms
proof (induction arbitrary: u rule: safeMarkup.induct)
  case safe_Nil
  then show ?case by simp
next
  case (safe_plain d w)
  from safe_plain.prems safe_plain.hyps(1) obtain u' where u: "u = d # u'" "w = u' @ CHR ''>'' # v"
    by (cases u) auto
  from safe_plain.IH [OF u(2)] obtain t where t: "t \<in> set tag_texts" "suffix t (u' @ ''>'')"
    by blast
  from t(2) have t': "suffix t (d # (u' @ ''>''))" by (rule suffix_ConsI)
  have eq: "u @ ''>'' = d # (u' @ ''>'')" using u(1) by simp
  show ?case unfolding eq using t(1) t' by blast
next
  case (safe_text t w)
  from safe_text.prems(1) obtain z where
    z: "(t = u @ z \<and> z @ w = CHR ''>'' # v) \<or> (t @ z = u \<and> w = z @ CHR ''>'' # v)"
    by (auto simp: append_eq_append_conv2)
  show ?case
  proof (cases "t @ z = u \<and> w = z @ CHR ''>'' # v")
    case True
    with safe_text.IH [of z] obtain t' where "t' \<in> set tag_texts" "suffix t' (z @ ''>'')"
      by blast
    then have t': "t' \<in> set tag_texts" "suffix t' (t @ (z @ ''>''))"
      by (blast intro: suffix_appendI)+
    have eq: "u @ ''>'' = t @ (z @ ''>'')" using True by simp
    show ?thesis unfolding eq using t' by blast
  next
    case False
    with z have tz: "t = u @ z" "z @ w = CHR ''>'' # v" by simp_all
    show ?thesis
    proof (cases z)
      case Nil
      with tz have "w = [] @ CHR ''>'' # v" by simp
      with safe_text.IH [of "[]"] obtain t' where "t' \<in> set tag_texts" "suffix t' ([] @ ''>'')"
        by blast
      then have t': "t' \<in> set tag_texts" "suffix t' (u @ ([] @ ''>''))"
        by (blast intro: suffix_appendI)+
      have eq: "u @ ''>'' = u @ ([] @ ''>'')" by simp
      show ?thesis unfolding eq using t' by blast
    next
      case (Cons e z')
      with tz have t: "t = u @ CHR ''>'' # z'" by simp
      from token_last [OF t token_facts(5) [OF safe_text.hyps(1)]]
      have "z' = []" "last t = CHR ''>''" .
      with token_facts(6) [OF safe_text.hyps(1)] t show ?thesis by auto
    qed
  qed
qed

lemma fixedMarkupFrom_safe: "safeMarkup (b @ s) \<Longrightarrow> fixedMarkupFrom b s"
proof (induction s arbitrary: b)
  case Nil
  show ?case by simp
next
  case (Cons c s)
  from Cons.prems have "safeMarkup ((b @ [c]) @ s)" by simp
  then have rec: "fixedMarkupFrom (b @ [c]) s" by (rule Cons.IH)
  have lt: "\<exists>t \<in> set tag_texts. prefix t (c # s)" if "c = CHR ''<''"
  proof -
    from safe_opens [OF Cons.prems refl] that obtain t where
      t: "t \<in> set emitted_texts" "hd t = c" "prefix t (c # s)" by blast
    from token_facts(2) [OF t(1)] t(2) that obtain t' where
      "t' \<in> set tag_texts" "prefix t' t" by blast
    with t(3) show ?thesis by (blast intro: prefix_order.trans)
  qed
  have amp: "\<exists>t \<in> set entity_texts. prefix t (c # s)" if "c = CHR ''&''"
  proof -
    from safe_opens [OF Cons.prems refl] that obtain t where
      t: "t \<in> set emitted_texts" "hd t = c" "prefix t (c # s)" by blast
    from token_facts(4) [OF t(1)] t(2) that have "t \<in> set entity_texts" by simp
    with t(3) show ?thesis by blast
  qed
  have gt: "\<exists>t \<in> set tag_texts. suffix t (b @ [c])" if "c = CHR ''>''"
    using safe_closes [OF Cons.prems [unfolded that] refl] that by simp
  from rec lt amp gt show ?case by simp
qed

lemma onlyFixedMarkup_safe: "safeMarkup s \<Longrightarrow> onlyFixedMarkup s"
  by (simp add: onlyFixedMarkup_def fixedMarkupFrom_safe)

lemma anchor_scheme:
  assumes "safeMarkup (u @ s)" and "prefix ''<a'' s"
  shows "prefix (a_open @ ''https://'') s \<or> prefix (a_open @ ''http://'') s"
proof -
  from assms(2) obtain v where s: "s = CHR ''<'' # v" and v: "prefix ''a'' v"
    by (cases s) auto
  have "u @ s = u @ CHR ''<'' # v" using s by simp
  from safe_opens [OF assms(1) this] s obtain t where
    t: "t \<in> set emitted_texts" "hd t = CHR ''<''" "prefix t s" by auto
  have "length t \<ge> 2"
    using t(1)
    unfolding emitted_texts_def a_open_def a_class_def a_close_def code_open_def code_close_def
    by auto
  with t(3) assms(2) have "prefix ''<a'' t"
    by (auto simp: prefix_def append_eq_append_conv2 Cons_eq_append_conv append_eq_Cons_conv)
  with tok4 [rule_format, OF t(1)] t(3) show ?thesis by auto
qed

lemma linksHttpOnly_safe: "safeMarkup (u @ s) \<Longrightarrow> linksHttpOnly s"
proof (induction s arbitrary: u)
  case Nil
  show ?case by simp
next
  case (Cons c s)
  from Cons.prems have "safeMarkup ((u @ [c]) @ s)" by simp
  then have "linksHttpOnly s" by (rule Cons.IH)
  with anchor_scheme [OF Cons.prems] show ?case by simp
qed

lemma no_script:
  assumes "safeMarkup s" shows "\<not> sublist ''<script'' s"
proof
  assume "sublist ''<script'' s"
  then obtain u v where "s = u @ CHR ''<'' # (''script'' @ v)"
    by (auto simp: sublist_def)
  from safe_opens [OF assms this] obtain t where "t \<in> set emitted_texts"
    "hd t = CHR ''<''" "prefix t (''<script'' @ v)"
    by auto
  then show False
    unfolding emitted_texts_def a_open_def a_class_def a_close_def code_open_def code_close_def
    by auto
qed

lemma nodesSafe_simps:
  "nodesSafe []"
  "nodesSafe (ns @ ms) \<longleftrightarrow> nodesSafe ns \<and> nodesSafe ms"
  "nodesSafe [Heading n h] \<longleftrightarrow> safeMarkup h"
  "nodesSafe [Paragraph h] \<longleftrightarrow> safeMarkup h"
  "nodesSafe [LineBreak]"
  "nodesSafe [ListNode items] \<longleftrightarrow> (\<forall>h \<in> set items. safeMarkup h)"
  by (auto simp: nodesSafe_def)

lemma flushListItems_safe:
  "nodesSafe (fst st) \<Longrightarrow> nodesSafe (fst (flushListItems st))"
  by (cases st) (simp add: flushListItems_def nodesSafe_simps safe_applyInlineFormatting)

lemma processLine_safe:
  assumes "nodesSafe (fst st)"
  shows "nodesSafe (fst (processLine st line))"
proof -
  obtain els items where fl: "flushListItems st = (els, items)" by (cases "flushListItems st")
  with flushListItems_safe [OF assms] have "nodesSafe els" by simp
  with assms fl show ?thesis
    by (cases st) (simp add: processLine_def nodesSafe_simps safe_applyInlineFormatting)
qed

lemma foldl_processLine_safe:
  "nodesSafe (fst st) \<Longrightarrow> nodesSafe (fst (foldl processLine st ls))"
  by (induction ls arbitrary: st) (simp_all add: processLine_safe)

lemma renderLines_safe: "nodesSafe (renderLines ls)"
  unfolding renderLines_def
  by (intro flushListItems_safe foldl_processLine_safe) (simp add: nodesSafe_simps)

lemma renderBlock_safe: "\<forall>h \<in> set (blockHtml (renderBlock b)). safeMarkup h"
  using renderLines_safe [of "splitLines b"]
  by (simp add: renderBlock_def safe_escapeHtml nodesSafe_def)

lemma renderContent_safe: "\<forall>h \<in> set (renderedHtml (renderContent content)). safeMarkup h"
  using renderBlock_safe by (auto simp: renderedHtml_def renderContent_def)

text \<open>
  C1. Whatever the input, every string the renderer hands to the page contains \<^verbatim>\<open><\<close> only as
  the first and \<^verbatim>\<open>>\<close> only as the last character of one of the emitted tag texts, and \<^verbatim>\<open>&\<close>
  only at the start of an entity reference; in particular the text \<^verbatim>\<open><script\<close> never occurs in it.
  The same holds for the inline formatter on its own.
\<close>

theorem C1_rendered_markup_is_fixed_tags_and_entities:
  "(onlyFixedMarkup (applyInlineFormatting raw) \<and> \<not> sublist ''<script'' (applyInlineFormatting raw))
   \<and> (\<forall>h \<in> set (renderedHtml (renderContent content)).
         onlyFixedMarkup h \<and> \<not> sublist ''<script'' h)"
  using safe_applyInlineFormatting [of raw] renderContent_safe [of content]
  by (auto intro: onlyFixedMarkup_safe dest: no_script)

theorem C1_witness:
  "''&lt;script&gt;alert(1)&lt;/script&gt; &amp; <strong>b</strong>''
     \<in> set (renderedHtml (renderContent ''<script>alert(1)</script> & **b**''))
   \<and> onlyFixedMarkup ''&lt;script&gt;alert(1)&lt;/script&gt; &amp; <strong>b</strong>''
   \<and> \<not> sublist ''<script'' ''&lt;script&gt;alert(1)&lt;/script&gt; &amp; <strong>b</strong>''"
proof -
  have mem: "''&lt;script&gt;alert(1)&lt;/script&gt; &amp; <strong>b</strong>''
     \<in> set (renderedHtml (renderContent ''<script>alert(1)</script> & **b**''))"
    by code_simp
  from C1_rendered_markup_is_fixed_tags_and_entities
    [of "[]" "''<script>alert(1)</script> & **b**''", THEN conjunct2, rule_format, OF mem] mem
  show ?thesis by simp
qed

subsection \<open>An observation on the href attribute\<close>

text \<open>
  The class \<^verbatim>\<open>[^\s)]\<close> of the link rule admits a double quote, and the escape pre-pass leaves
  quotes alone, so a quote in the url is copied into the \<^verbatim>\<open>href\<close> value as it is. The property
  of C1 speaks of \<^verbatim>\<open><\<close>, \<^verbatim>\<open>>\<close> and \<^verbatim>\<open>&\<close> only and is not affected.
\<close>

lemma href_quote_not_escaped:
  \<open>applyInlineFormatting ''[a](http://x"y)'' = a_open @ ''http://x"y'' @ a_attrs @ a_class @ ''a'' @ a_close\<close>
  by code_simp

section \<open>The link rule\<close>

lemma takeWhile_until:
  assumes "\<forall>x \<in> set xs. P x" and "\<not> P y"
  shows "takeWhile P (xs @ y # ys) = xs" and "dropWhile P (xs @ y # ys) = y # ys"
  using assms by (induction xs) auto

lemma prefix_before:
  assumes "prefix p (u @ c # r)" and "c \<notin> set p"
  shows "prefix p u"
proof -
  from assms(1) have "prefix p u \<or> (\<exists>us. p = u @ us \<and> prefix us (c # r))"
    by (simp add: prefix_append)
  then show ?thesis
  proof
    assume "prefix p u" then show ?thesis .
  next
    assume "\<exists>us. p = u @ us \<and> prefix us (c # r)"
    then obtain us where us: "p = u @ us" "prefix us (c # r)" by blast
    show ?thesis
    proof (cases us)
      case Nil
      with us show ?thesis by simp
    next
      case (Cons d us')
      with us(2) have "d = c" by simp
      with Cons us(1) assms(2) show ?thesis by simp
    qed
  qed
qed

lemma scheme_at_none:
  assumes "\<not> prefix ''https://'' url" and "\<not> prefix ''http://'' url"
  shows "scheme_at (url @ CHR '')'' # rest) = None"
proof -
  have "\<not> prefix ''https://'' (url @ CHR '')'' # rest)"
    using assms(1) prefix_before [of "''https://''" url "CHR '')''" rest] by auto
  moreover have "\<not> prefix ''http://'' (url @ CHR '')'' # rest)"
    using assms(2) prefix_before [of "''http://''" url "CHR '')''" rest] by auto
  ultimately show ?thesis by (simp add: scheme_at_def stripPrefix_def)
qed

lemma scheme_at_https: "scheme_at (''https://'' @ r) = Some (''https://'', r)"
  by (simp add: scheme_at_def stripPrefix_def)

lemma scheme_at_http: "scheme_at (''http://'' @ r) = Some (''http://'', r)"
  by (simp add: scheme_at_def stripPrefix_def)

lemma first_occurrence_unique:
  assumes "xs @ y # a = xs' @ y # b" and "y \<notin> set xs" and "y \<notin> set xs'"
  shows "xs = xs' \<and> a = b"
proof -
  have "takeWhile (\<lambda>x. x \<noteq> y) (xs @ y # a) = xs" "takeWhile (\<lambda>x. x \<noteq> y) (xs' @ y # b) = xs'"
    using assms(2,3) by (auto intro!: takeWhile_until(1))
  with assms(1) have "xs = xs'" by simp
  with assms(1) show ?thesis by simp
qed

lemma link_at_hit:
  assumes label: "label \<noteq> []" "CHR '']'' \<notin> set label"
    and sch: "sch = ''https://'' \<or> sch = ''http://''"
    and path: "path \<noteq> []" "\<forall>c \<in> set path. url_char c"
  shows "link_at (CHR ''['' # label @ '']('' @ (sch @ path) @ CHR '')'' # rest)
    = Some (label, sch @ path, rest)"
proof -
  have l: "\<forall>x \<in> set label. x \<noteq> CHR '']''" using label(2) by auto
  have tw: "takeWhile (\<lambda>x. x \<noteq> CHR '']'') (label @ CHR '']'' # CHR ''('' # sch @ path @ CHR '')'' # rest) = label"
    by (rule takeWhile_until(1) [OF l]) simp
  have dw: "dropWhile (\<lambda>x. x \<noteq> CHR '']'') (label @ CHR '']'' # CHR ''('' # sch @ path @ CHR '')'' # rest)
      = CHR '']'' # CHR ''('' # sch @ path @ CHR '')'' # rest"
    by (rule takeWhile_until(2) [OF l]) simp
  have sp: "stripPrefix '']('' (CHR '']'' # CHR ''('' # sch @ path @ CHR '')'' # rest)
      = Some (sch @ path @ CHR '')'' # rest)"
    by (simp add: stripPrefix_def)
  have sc: "scheme_at (sch @ path @ CHR '')'' # rest) = Some (sch, path @ CHR '')'' # rest)"
    using sch scheme_at_https scheme_at_http by auto
  have close: "\<not> url_char CHR '')''" by (simp add: url_char_def)
  note tu = takeWhile_until [OF path(2) close]
  show ?thesis
    using label(1) path(1) by (simp add: link_at_def tw dw sp sc tu)
qed

lemma link_at_only:
  assumes hit: "link_at (CHR ''['' # label @ '']('' @ url @ CHR '')'' # rest) = Some (l', u', r')"
    and label: "CHR '']'' \<notin> set label" and url: "CHR '')'' \<notin> set url"
  shows "l' = label \<and> u' = url \<and> r' = rest \<and> label \<noteq> []
    \<and> (\<exists>sch path. url = sch @ path \<and> (sch = ''https://'' \<or> sch = ''http://'')
          \<and> path \<noteq> [] \<and> (\<forall>c \<in> set path. url_char c))"
proof -
  note d = link_at_decomp [OF hit]
  from d have eq: "CHR ''['' # label @ '']('' @ url @ CHR '')'' # rest
      = CHR ''['' # l' @ '']('' @ u' @ CHR '')'' # r'"
    by (rule conjunct1)
  from d have l': "l' \<noteq> []" "CHR '']'' \<notin> set l'"
    by (simp_all only: simp_thms)
  from d have ex: "\<exists>sch path. u' = sch @ path \<and> (sch = ''https://'' \<or> sch = ''http://'')
          \<and> path \<noteq> [] \<and> (\<forall>c \<in> set path. url_char c)"
    by (simp only: simp_thms)
  from eq have "label @ CHR '']'' # (CHR ''('' # url @ CHR '')'' # rest)
      = l' @ CHR '']'' # (CHR ''('' # u' @ CHR '')'' # r')" by simp
  from first_occurrence_unique [OF this label l'(2)]
  have ll: "label = l'" and rest: "url @ CHR '')'' # rest = u' @ CHR '')'' # r'" by simp_all
  have "CHR '')'' \<notin> set u'"
  proof -
    from ex obtain sch path where u: "u' = sch @ path" and sch: "sch = ''https://'' \<or> sch = ''http://''"
      and path: "\<forall>c \<in> set path. url_char c"
      by (elim exE conjE)
    from sch have "CHR '')'' \<notin> set sch" by (elim disjE) simp_all
    moreover from path have "CHR '')'' \<notin> set path" unfolding url_char_def by blast
    ultimately show ?thesis unfolding u by simp
  qed
  from first_occurrence_unique [OF rest url this] have uu: "url = u'" "rest = r'" by simp_all
  from ex uu(1) ll l'(1) uu(2) show ?thesis by (simp only: simp_thms)
qed

lemma link_at_iff:
  assumes label: "CHR '']'' \<notin> set label" and url: "CHR '')'' \<notin> set url"
  shows "link_at (CHR ''['' # label @ '']('' @ url @ CHR '')'' # rest) =
     (if label \<noteq> [] \<and> (\<exists>sch path. url = sch @ path \<and> (sch = ''https://'' \<or> sch = ''http://'')
            \<and> path \<noteq> [] \<and> (\<forall>c \<in> set path. url_char c))
      then Some (label, url, rest) else None)"
    (is "?lhs = (if ?cond then _ else _)")
proof (cases ?cond)
  case True
  then obtain sch path where p: "url = sch @ path" "sch = ''https://'' \<or> sch = ''http://''"
      "path \<noteq> []" "\<forall>c \<in> set path. url_char c" and l: "label \<noteq> []"
    by blast
  from link_at_hit [OF l label p(2,3,4), of rest] p(1) have "?lhs = Some (label, url, rest)"
    by simp
  with True show ?thesis by simp
next
  case False
  have "?lhs = None"
  proof (cases ?lhs)
    case None
    then show ?thesis .
  next
    case (Some a)
    obtain l' u' r' where "a = (l', u', r')" by (cases a)
    with Some have "?lhs = Some (l', u', r')" by simp
    from link_at_only [OF this label url] have ?cond by blast
    with False show ?thesis by simp
  qed
  with False show ?thesis by (simp only: if_False)
qed

lemma httpUrl_iff:
  "httpUrl url \<longleftrightarrow>
     (\<exists>sch path. url = sch @ path \<and> (sch = ''https://'' \<or> sch = ''http://'')
        \<and> path \<noteq> [] \<and> (\<forall>c \<in> set path. url_char c))"
  (is "_ \<longleftrightarrow> ?rhs")
proof
  assume h: "httpUrl url"
  then have all: "\<forall>c \<in> set url. url_char c" by (simp add: httpUrl_def url_char_def)
  from h consider (s) "prefix ''https://'' url" "drop 8 url \<noteq> []"
    | (p) "prefix ''http://'' url" "drop 7 url \<noteq> []"
    unfolding httpUrl_def by blast
  then show ?rhs
  proof cases
    case s
    from s(1) obtain path where url: "url = ''https://'' @ path" by (auto simp: prefix_def)
    with s(2) have "path \<noteq> []" by simp
    moreover from all url have "\<forall>c \<in> set path. url_char c" by simp
    ultimately show ?thesis using url by blast
  next
    case p
    from p(1) obtain path where url: "url = ''http://'' @ path" by (auto simp: prefix_def)
    with p(2) have "path \<noteq> []" by simp
    moreover from all url have "\<forall>c \<in> set path. url_char c" by simp
    ultimately show ?thesis using url by blast
  qed
next
  assume ?rhs
  then obtain sch path where url: "url = sch @ path" and sch: "sch = ''https://'' \<or> sch = ''http://''"
    and path: "path \<noteq> []" "\<forall>c \<in> set path. url_char c"
    by (elim exE conjE)
  from sch have "\<forall>c \<in> set sch. url_char c"
    by (elim disjE) (simp_all add: url_char_def is_space_def)
  with path(2) url have all: "\<forall>c \<in> set url. \<not> is_space c \<and> c \<noteq> CHR '')''"
    by (auto simp: url_char_def)
  from sch show "httpUrl url"
  proof
    assume "sch = ''https://''"
    with url path(1) have "prefix ''https://'' url \<and> drop 8 url \<noteq> []" by simp
    with all show ?thesis unfolding httpUrl_def by blast
  next
    assume "sch = ''http://''"
    with url path(1) have "prefix ''http://'' url \<and> drop 7 url \<noteq> []" by simp
    with all show ?thesis unfolding httpUrl_def by blast
  qed
qed

text \<open>
  C2. At a text of the shape \<^verbatim>\<open>[label](url)\<close> the link rule matches exactly when the label is
  not empty and the url begins with \<^verbatim>\<open>http://\<close> or \<^verbatim>\<open>https://\<close>, continues after the scheme and
  contains no whitespace; otherwise it produces no link. In the output of the inline formatter
  every \<^verbatim>\<open><a\<close> therefore opens an anchor whose \<^verbatim>\<open>href\<close> starts with one of the two schemes, and
  \<^verbatim>\<open>[click](javascript:alert(1))\<close> comes out as the same literal text.
\<close>

theorem C2_link_only_for_http_url:
  "(CHR '']'' \<notin> set label \<and> CHR '')'' \<notin> set url \<longrightarrow>
      link_at (CHR ''['' # label @ '']('' @ url @ CHR '')'' # rest) =
        (if label \<noteq> [] \<and> httpUrl url then Some (label, url, rest) else None))
   \<and> linksHttpOnly (applyInlineFormatting raw)
   \<and> applyInlineFormatting ''[click](javascript:alert(1))'' = ''[click](javascript:alert(1))''"
proof -
  have "link_at (CHR ''['' # label @ '']('' @ url @ CHR '')'' # rest) =
        (if label \<noteq> [] \<and> httpUrl url then Some (label, url, rest) else None)"
    if "CHR '']'' \<notin> set label" "CHR '')'' \<notin> set url"
    unfolding httpUrl_iff by (rule link_at_iff [OF that])
  moreover have "linksHttpOnly (applyInlineFormatting raw)"
    using linksHttpOnly_safe [of "[]"] safe_applyInlineFormatting by simp
  moreover have "applyInlineFormatting ''[click](javascript:alert(1))'' = ''[click](javascript:alert(1))''"
    by code_simp
  ultimately show ?thesis by blast
qed

theorem C2_witness:
  "CHR '']'' \<notin> set ''click'' \<and> CHR '')'' \<notin> set ''javascript:alert(1''
   \<and> link_at ''[click](javascript:alert(1))'' = None
   \<and> CHR '')'' \<notin> set ''https://example.org/a''
   \<and> link_at ''[click](https://example.org/a) and more''
        = Some (''click'', ''https://example.org/a'', '' and more'')"
proof -
  have h1: "CHR '']'' \<notin> set ''click'' \<and> CHR '')'' \<notin> set ''javascript:alert(1''" by simp
  have h2: "CHR '']'' \<notin> set ''click'' \<and> CHR '')'' \<notin> set ''https://example.org/a''" by simp
  have n: "\<not> httpUrl ''javascript:alert(1''" by (simp add: httpUrl_def)
  have y: "httpUrl ''https://example.org/a''" by (simp add: httpUrl_def is_space_def)
  from C2_link_only_for_http_url [of "''click''" "''javascript:alert(1''" "'')''" "[]",
      THEN conjunct1, rule_format, OF h1]
    C2_link_only_for_http_url [of "''click''" "''https://example.org/a''" "'' and more''" "[]",
      THEN conjunct1, rule_format, OF h2] n y
  show ?thesis by simp
qed

section \<open>Text without markers\<close>

lemma regexReplace_none:
  assumes "\<And>prev s'. suffix s' s \<Longrightarrow> m prev s' = None"
  shows "regexReplace m prev s = s"
  using assms
proof (induction s arbitrary: prev)
  case Nil
  then have "m prev [] = None" by simp
  then show ?case by simp
next
  case (Cons c t)
  have "m prev (c # t) = None" by (rule Cons.prems) simp
  moreover have "regexReplace m (Some c) t = t"
    by (rule Cons.IH) (simp add: Cons.prems suffix_ConsI)
  ultimately show ?case by simp
qed

lemma regexReplace_no_marker:
  assumes rule: "\<And>prev s. (s = [] \<or> hd s \<noteq> d) \<Longrightarrow> m prev s = None"
    and "d \<notin> set s"
  shows "regexReplace m prev s = s"
proof (rule regexReplace_none)
  fix prev s'
  assume "suffix s' s"
  then have "set s' \<subseteq> set s" by (rule set_mono_suffix)
  with assms(2) have "s' = [] \<or> hd s' \<noteq> d" by (cases s') auto
  then show "m prev s' = None" by (rule rule)
qed

lemma link_rule_needs: "s = [] \<or> hd s \<noteq> CHR ''['' \<Longrightarrow> link_rule prev s = None"
  by (cases s) (simp_all add: link_rule_def link_at_def)

lemma bold_rule_needs: "s = [] \<or> hd s \<noteq> CHR ''*'' \<Longrightarrow> bold_rule prev s = None"
  by (cases s) (simp_all add: bold_rule_def bold_at_def stripPrefix_def)

lemma underscore_rule_needs: "s = [] \<or> hd s \<noteq> CHR ''_'' \<Longrightarrow> underscore_rule prev s = None"
  by (cases s) (simp_all add: underscore_rule_def delimited_at_def)

lemma star_rule_needs: "s = [] \<or> hd s \<noteq> CHR ''*'' \<Longrightarrow> star_rule prev s = None"
  by (cases s) (simp_all add: star_rule_def star_at_def)

lemma code_rule_needs: "s = [] \<or> hd s \<noteq> CHR ''`'' \<Longrightarrow> code_rule prev s = None"
  by (cases s) (simp_all add: code_rule_def delimited_at_def)

lemma set_escapeChar: "set (escapeChar c) \<subseteq> insert c (set ''&amp;lt;gt;'')"
  by (simp add: escapeChar_def)

lemma set_escapeHtml: "set (escapeHtml raw) \<subseteq> set raw \<union> set ''&amp;lt;gt;''"
proof -
  define E where "E = set ''&amp;lt;gt;''"
  have step: "set (escapeChar c) \<subseteq> insert c E" for c
    unfolding E_def by (rule set_escapeChar)
  have "set (escapeHtml raw) \<subseteq> set raw \<union> E"
  proof (induction raw)
    case Nil
    show ?case by (simp add: escapeHtml_Nil)
  next
    case (Cons c raw)
    have "set (escapeHtml (c # raw)) = set (escapeChar c) \<union> set (escapeHtml raw)"
      by (simp add: escapeHtml_Cons)
    with step [of c] Cons show ?case by auto
  qed
  then show ?thesis unfolding E_def .
qed

lemma escapeHtml_keeps_out:
  assumes "c \<notin> set raw" and "c \<notin> set ''&amp;lt;gt;''"
  shows "c \<notin> set (escapeHtml raw)"
proof
  assume "c \<in> set (escapeHtml raw)"
  with set_escapeHtml [of raw] have "c \<in> set raw \<union> set ''&amp;lt;gt;''" by (rule subsetD)
  with assms show False by (simp only: Un_iff simp_thms)
qed

lemma escapeChar_not_Nil: "escapeChar c \<noteq> []"
  by (simp add: escapeChar_def)

lemma escapeHtml_eq_Nil: "escapeHtml raw = [] \<longleftrightarrow> raw = []"
  by (cases raw) (simp_all add: escapeHtml_Nil escapeHtml_Cons escapeChar_not_Nil)

lemma escapeChar_plain: "c \<notin> {CHR ''&'', CHR ''<'', CHR ''>''} \<Longrightarrow> escapeChar c = [c]"
  by (simp add: escapeChar_def)

lemma escapeHtml_plain: "\<forall>c \<in> set p. c \<notin> {CHR ''&'', CHR ''<'', CHR ''>''} \<Longrightarrow> escapeHtml p = p"
  by (induction p) (simp_all add: escapeHtml_Nil escapeHtml_Cons escapeChar_plain)

section \<open>Inline code\<close>

lemma delimited_at_hit:
  assumes "g \<noteq> []" and "d \<notin> set g"
  shows "delimited_at d (d # g @ d # rest) = Some (g, rest)"
proof -
  have g: "\<forall>x \<in> set g. x \<noteq> d" using assms(2) by auto
  have "\<not> d \<noteq> d" by simp
  note tu = takeWhile_until [of g "\<lambda>x. x \<noteq> d" d rest, OF g this]
  show ?thesis using assms(1) by (simp add: delimited_at_def tu)
qed

lemma regexReplace_prefix:
  assumes rule: "\<And>prev s. (s = [] \<or> hd s \<noteq> d) \<Longrightarrow> m prev s = None"
    and "d \<notin> set pre"
  shows "\<exists>prev'. regexReplace m prev (pre @ s) = pre @ regexReplace m prev' s"
  using assms(2)
proof (induction pre arbitrary: prev)
  case Nil
  have "regexReplace m prev ([] @ s) = [] @ regexReplace m prev s" by simp
  then show ?case by (rule exI)
next
  case (Cons c pre)
  then have "c \<noteq> d" "d \<notin> set pre" by auto
  from rule [of "c # pre @ s" prev] \<open>c \<noteq> d\<close> have "m prev (c # pre @ s) = None" by simp
  then have "regexReplace m prev ((c # pre) @ s) = c # regexReplace m (Some c) (pre @ s)"
    by simp
  with Cons.IH [OF \<open>d \<notin> set pre\<close>, of "Some c"] show ?case by auto
qed

lemma code_pass_on_span:
  assumes "g \<noteq> []" and "CHR ''`'' \<notin> set pre" "CHR ''`'' \<notin> set g" "CHR ''`'' \<notin> set post"
  shows "regexReplace code_rule prev (pre @ CHR ''`'' # g @ CHR ''`'' # post)
    = pre @ code_open @ g @ code_close @ post"
proof -
  let ?s = "CHR ''`'' # g @ CHR ''`'' # post"
  from regexReplace_prefix [of "CHR ''`''" code_rule pre prev ?s, OF code_rule_needs assms(2)]
  obtain prev' where 1: "regexReplace code_rule prev (pre @ ?s) = pre @ regexReplace code_rule prev' ?s"
    by blast
  have hit: "code_rule prev' ?s = Some (code_open @ g @ code_close, post)"
    by (simp add: code_rule_def delimited_at_hit [OF assms(1,3)])
  have "regexReplace code_rule prev' ?s
      = (code_open @ g @ code_close) @ regexReplace code_rule (lastConsumed ?s post) post"
    by (simp only: regexReplace.simps hit option.case prod.case) simp
  also have "regexReplace code_rule (lastConsumed ?s post) post = post"
    by (rule regexReplace_no_marker [OF code_rule_needs assms(4)])
  finally show ?thesis using 1 by simp
qed

lemma ball_append3:
  assumes "\<forall>x \<in> set (a @ b @ c). P x"
  shows "\<forall>x \<in> set a. P x" and "\<forall>x \<in> set b. P x" and "\<forall>x \<in> set c. P x"
  using assms by auto

lemma not_in_set:
  assumes "\<forall>c \<in> set xs. c \<notin> M" and "d \<in> M"
  shows "d \<notin> set xs"
  using assms by blast

lemma applyInlineFormatting_no_markers:
  assumes "\<forall>c \<in> set raw. c \<notin> {CHR ''*'', CHR ''_'', CHR ''[''}"
  shows "applyInlineFormatting raw = regexReplace code_rule None (escapeHtml raw)"
proof -
  have raw: "CHR ''['' \<notin> set raw" "CHR ''*'' \<notin> set raw" "CHR ''_'' \<notin> set raw"
    by (rule not_in_set [OF assms], simp)+
  have out: "CHR ''['' \<notin> set (escapeHtml raw)" "CHR ''*'' \<notin> set (escapeHtml raw)"
    "CHR ''_'' \<notin> set (escapeHtml raw)"
    by (rule escapeHtml_keeps_out, rule raw, simp)+
  have 1: "regexReplace link_rule None (escapeHtml raw) = escapeHtml raw"
    by (rule regexReplace_no_marker [OF link_rule_needs out(1)])
  have 2: "regexReplace bold_rule None (escapeHtml raw) = escapeHtml raw"
    by (rule regexReplace_no_marker [OF bold_rule_needs out(2)])
  have 3: "regexReplace underscore_rule None (escapeHtml raw) = escapeHtml raw"
    by (rule regexReplace_no_marker [OF underscore_rule_needs out(3)])
  have 4: "regexReplace star_rule None (escapeHtml raw) = escapeHtml raw"
    by (rule regexReplace_no_marker [OF star_rule_needs out(2)])
  show ?thesis by (simp only: applyInlineFormatting_def 1 2 3 4)
qed

text \<open>
  When a line has an inline-code construct and contains none of the characters \<^verbatim>\<open>*\<close>, \<^verbatim>\<open>_\<close>,
  \<^verbatim>\<open>[\<close> and no further backtick, the Code span holds the escaped text between the backticks
  and the text around it is escaped and otherwise unchanged.
\<close>

lemma code_span_literal_without_markers:
  assumes "g \<noteq> []"
    and "\<forall>c \<in> set (pre @ g @ post). c \<notin> {CHR ''*'', CHR ''_'', CHR ''['', CHR ''`''}"
  shows "applyInlineFormatting (pre @ CHR ''`'' # g @ CHR ''`'' # post)
    = escapeHtml pre @ code_open @ escapeHtml g @ code_close @ escapeHtml post"
proof -
  have m: "\<forall>c \<in> set (pre @ CHR ''`'' # g @ CHR ''`'' # post). c \<notin> {CHR ''*'', CHR ''_'', CHR ''[''}"
    using assms(2) by (simp add: ball_Un)
  note parts = ball_append3 [OF assms(2)]
  have raw: "CHR ''`'' \<notin> set pre" "CHR ''`'' \<notin> set g" "CHR ''`'' \<notin> set post"
    by (rule not_in_set [OF parts(1)], simp, rule not_in_set [OF parts(2)], simp,
        rule not_in_set [OF parts(3)], simp)
  have bt: "CHR ''`'' \<notin> set (escapeHtml pre)" "CHR ''`'' \<notin> set (escapeHtml g)"
    "CHR ''`'' \<notin> set (escapeHtml post)"
    by (rule escapeHtml_keeps_out, rule raw, simp)+
  have ne: "escapeHtml g \<noteq> []" using assms(1) by (simp add: escapeHtml_eq_Nil)
  have esc: "escapeHtml (pre @ CHR ''`'' # g @ CHR ''`'' # post)
      = escapeHtml pre @ CHR ''`'' # escapeHtml g @ CHR ''`'' # escapeHtml post"
    by (simp add: escapeHtml_append escapeHtml_Cons escapeChar_def)
  show ?thesis
    by (simp only: applyInlineFormatting_no_markers [OF m] esc code_pass_on_span [OF ne bt])
qed

text \<open>
  C4. The inline-code rule is the last of the five replacements and runs on a line that the link,
  bold and italic rules have already rewritten; nothing keeps those rules out of the text
  between backticks, as the split on fences does for code blocks. Bold markers inside backticks
  therefore give a Code span whose content is a nested \<^verbatim>\<open><strong>\<close>, not the literal characters.
  A span whose content has no marker stays literal, also next to bold text.
\<close>

theorem C4_code_span_content_is_formatted:
  "applyInlineFormatting ''`**x**`'' = code_open @ ''<strong>x</strong>'' @ code_close
   \<and> applyInlineFormatting ''`**x**`'' \<noteq> code_open @ ''**x**'' @ code_close
   \<and> applyInlineFormatting ''**Tip:** use `npm i`''
       = ''<strong>Tip:</strong> use '' @ code_open @ ''npm i'' @ code_close"
  by code_simp

section \<open>Escaping on the two paths\<close>

text \<open>
  On the inline path a text without marker characters comes out as the once-escaped text.
\<close>

lemma applyInlineFormatting_plain:
  assumes "\<forall>c \<in> set raw. c \<notin> {CHR ''*'', CHR ''_'', CHR ''['', CHR ''`''}"
  shows "applyInlineFormatting raw = escapeHtml raw"
proof -
  have m: "\<forall>c \<in> set raw. c \<notin> {CHR ''*'', CHR ''_'', CHR ''[''}"
    using assms by simp
  have "CHR ''`'' \<notin> set raw" by (rule not_in_set [OF assms]) simp
  then have bt: "CHR ''`'' \<notin> set (escapeHtml raw)" by (rule escapeHtml_keeps_out) simp
  have "regexReplace code_rule None (escapeHtml raw) = escapeHtml raw"
    by (rule regexReplace_no_marker [OF code_rule_needs bt])
  with applyInlineFormatting_no_markers [OF m] show ?thesis by simp
qed

text \<open>
  C5. The body of a fenced block is escaped by hand and then handed to the page as a text child.
  A text child is mounted as text, not parsed as markup, so in the page's markup the escaped
  text is escaped once more: a raw \<^verbatim>\<open><\<close> arrives as \<^verbatim>\<open>&amp;lt;\<close> and the reader sees \<^verbatim>\<open>&lt;\<close>.
  The same text in a paragraph, handed over as innerHTML, is escaped once.
\<close>

theorem C5_code_block_text_escaped_twice:
  "renderContent (''```'' @ [nl] @ ''a<b'' @ [nl] @ ''```'')
     = Some [TextBlock [], CodeBlock (''a&lt;b'' @ [nl]), TextBlock []]
   \<and> blockPieces (CodeBlock (''a&lt;b'' @ [nl])) = [TextChild (''a&lt;b'' @ [nl])]
   \<and> markupOf (TextChild (''a&lt;b'' @ [nl])) = ''a&amp;lt;b'' @ [nl]
   \<and> renderContent ''a<b'' = Some [TextBlock [Paragraph ''a&lt;b'']]
   \<and> blockPieces (TextBlock [Paragraph ''a&lt;b'']) = [InnerHtml ''a&lt;b'']
   \<and> markupOf (InnerHtml ''a&lt;b'') = ''a&lt;b''"
  by code_simp

section \<open>The shell\<close>

lemma shellInv_initial: "shellInv True initialApp"
  by (simp add: shellInv_def initialApp_def initialShell_def)

lemma shellInv_step:
  assumes "shellInv fresh a" and "rendersBetweenInvokes fresh (e # evs)"
  shows "\<exists>fresh'. shellInv fresh' (step a e) \<and> rendersBetweenInvokes fresh' evs"
proof (cases e)
  case (SetPrompt p)
  with assms have "shellInv fresh (step a e)" "rendersBetweenInvokes fresh evs"
    by (simp_all add: shellInv_def)
  then show ?thesis by blast
next
  case Render
  with assms have "shellInv True (step a e)" "rendersBetweenInvokes True evs"
    by (simp_all add: shellInv_def)
  then show ?thesis by blast
next
  case Invoke
  with assms(2) have fresh: fresh and rest: "rendersBetweenInvokes False evs" by simp_all
  from assms(1) fresh Invoke have "shellInv False (step a e)"
    by (auto simp: shellInv_def handleGeneratePost_def)
  with rest show ?thesis by blast
next
  case (Resolve r)
  with assms have "shellInv fresh (step a e)" "rendersBetweenInvokes fresh evs"
    by (cases "inFlight a"; simp add: shellInv_def requestResolved_def)+
  then show ?thesis by blast
next
  case (Reject r)
  with assms have "shellInv fresh (step a e)" "rendersBetweenInvokes fresh evs"
    by (cases "inFlight a"; simp add: shellInv_def requestRejected_def)+
  then show ?thesis by blast
qed

lemma shellInv_foldl:
  "shellInv fresh a \<Longrightarrow> rendersBetweenInvokes fresh evs \<Longrightarrow> \<exists>fresh'. shellInv fresh' (foldl step a evs)"
proof (induction evs arbitrary: a fresh)
  case Nil
  then show ?case by auto
next
  case (Cons e evs)
  from shellInv_step [OF Cons.prems] obtain fresh' where
    "shellInv fresh' (step a e)" "rendersBetweenInvokes fresh' evs" by blast
  from Cons.IH [OF this] show ?case by simp
qed

text \<open>
  C9. An invocation of the generate action issues no request and changes nothing when the render
  that created the handler had the loading flag set, or a prompt that is empty or only
  whitespace. When a render is committed between any two invocations, at most one request is in
  flight along the whole sequence of events, and the loading flag is set exactly while one is.
\<close>

theorem C9_suppressed_by_rendered_state:
  "(isLoading seen \<or> trim (prompt seen) = [] \<longrightarrow> handleGeneratePost seen st = (st, None))
   \<and> (rendersBetweenInvokes True evs \<longrightarrow>
        length (inFlight (run evs)) \<le> 1
        \<and> (isLoading (latest (run evs)) \<longleftrightarrow> inFlight (run evs) \<noteq> []))"
proof -
  have "length (inFlight (run evs)) \<le> 1
        \<and> (isLoading (latest (run evs)) \<longleftrightarrow> inFlight (run evs) \<noteq> [])"
    if "rendersBetweenInvokes True evs"
    using shellInv_foldl [OF shellInv_initial that] by (auto simp: run_def shellInv_def)
  then show ?thesis by (auto simp: handleGeneratePost_def)
qed

theorem C9_witness:
  "rendersBetweenInvokes True
     [SetPrompt ''cats'', Render, Invoke, Render, Invoke, SetPrompt ''dogs'', Render, Invoke]
   \<and> inFlight (run [SetPrompt ''cats'', Render, Invoke, Render, Invoke, SetPrompt ''dogs'', Render, Invoke])
       = [''cats'']
   \<and> isLoading (rendered (run [SetPrompt ''cats'', Render, Invoke, Render]))
   \<and> handleGeneratePost (rendered (run [SetPrompt ''cats'', Render, Invoke, Render]))
        (latest (run [SetPrompt ''cats'', Render, Invoke, Render]))
       = (latest (run [SetPrompt ''cats'', Render, Invoke, Render]), None)"
proof -
  let ?evs = "[SetPrompt ''cats'', Render, Invoke, Render, Invoke, SetPrompt ''dogs'', Render, Invoke]"
  let ?a = "run [SetPrompt ''cats'', Render, Invoke, Render]"
  have h: "rendersBetweenInvokes True ?evs" by simp
  have v: "inFlight (run ?evs) = [''cats'']"
    by (simp add: run_def initialApp_def initialShell_def handleGeneratePost_def trim_def is_space_def)
  have l: "isLoading (rendered ?a)"
    by (simp add: run_def initialApp_def initialShell_def handleGeneratePost_def trim_def is_space_def)
  note t = C9_suppressed_by_rendered_state [of "rendered ?a" "latest ?a" ?evs]
  from t [THEN conjunct1] l
  have g: "handleGeneratePost (rendered ?a) (latest ?a) = (latest ?a, None)" by blast
  from t [THEN conjunct2, rule_format, OF h] have "length (inFlight (run ?evs)) \<le> 1" by blast
  with h v l g show ?thesis by (simp only: simp_thms)
qed

text \<open>
  C9. Without a render in between, a second invocation still reads the loading flag of the old
  render: although a request is outstanding and the flag has been set, it issues a second
  request.
\<close>

theorem C9_counterexample:
  "isLoading (latest (run [SetPrompt ''cats'', Render, Invoke]))
   \<and> inFlight (run [SetPrompt ''cats'', Render, Invoke]) = [''cats'']
   \<and> inFlight (run [SetPrompt ''cats'', Render, Invoke, Invoke]) = [''cats'', ''cats'']"
  by (simp add: run_def initialApp_def initialShell_def handleGeneratePost_def trim_def is_space_def)

section \<open>Lines\<close>

lemma dropWhile_all: "\<forall>x \<in> set ws. P x \<Longrightarrow> dropWhile P (ws @ s) = dropWhile P s"
  by (induction ws) simp_all

lemma trim_leading: "\<forall>c \<in> set ws. is_space c \<Longrightarrow> trim (ws @ s) = trim s"
  by (simp add: trim_def dropWhile_all)

lemma trim_Cons:
  assumes "\<not> is_space c"
  shows "trim (c # u) = c # rev (dropWhile is_space (rev u))"
proof (cases "\<forall>x \<in> set (rev u). is_space x")
  case True
  then have "dropWhile is_space (rev u @ [c]) = [c]" "dropWhile is_space (rev u) = []"
    using assms by (simp_all add: dropWhile_all)
  with assms show ?thesis by (simp add: trim_def)
next
  case False
  then obtain x where "x \<in> set (rev u)" "\<not> is_space x" by blast
  then have "dropWhile is_space (rev u @ [c]) = dropWhile is_space (rev u) @ [c]"
    by (rule dropWhile_append1)
  with assms show ?thesis by (simp add: trim_def)
qed

lemma trim_marker:
  assumes "\<not> is_space c" and "\<exists>x \<in> set item. \<not> is_space x"
  shows "trim (c # d # item) = c # d # rev (dropWhile is_space (rev item))"
proof -
  from assms(2) obtain x where "x \<in> set (rev item)" "\<not> is_space x" by auto
  then have "dropWhile is_space (rev item @ [d]) = dropWhile is_space (rev item) @ [d]"
    by (rule dropWhile_append1)
  with trim_Cons [OF assms(1), of "d # item"] show ?thesis by simp
qed

lemma space_chars: "is_space c \<Longrightarrow> CHR ''#'' \<noteq> c"
  by (auto simp: is_space_def)

lemma not_space: "\<not> is_space CHR ''#''" "\<not> is_space CHR ''*''"
  by (simp_all add: is_space_def)

lemma indented_not_heading:
  assumes "ws \<noteq> []" and "\<forall>c \<in> set ws. is_space c"
  shows "\<not> startsWith (ws @ s) ''## ''" and "\<not> startsWith (ws @ s) ''### ''"
proof -
  from assms obtain w ws' where "ws = w # ws'" "is_space w" by (cases ws) auto
  with space_chars [of w] show "\<not> startsWith (ws @ s) ''## ''" "\<not> startsWith (ws @ s) ''### ''"
    by (simp_all add: startsWith_def)
qed

lemma hash_line_kind:
  assumes "\<forall>c \<in> set ws. is_space c"
  shows "\<not> startsWith (trim (ws @ CHR ''#'' # s)) ''* ''" and "trim (ws @ CHR ''#'' # s) \<noteq> []"
  using trim_Cons [OF not_space(1), of s]
  by (simp_all add: trim_leading [OF assms] startsWith_def)

lemma star_line_kind:
  assumes "\<forall>c \<in> set ws. is_space c" and "\<exists>x \<in> set item. \<not> is_space x"
  shows "startsWith (trim (ws @ ''* '' @ item)) ''* ''"
  using trim_marker [OF not_space(2) assms(2), of "CHR '' ''"]
  by (simp add: trim_leading [OF assms(1)] startsWith_def)

text \<open>
  C10. A line whose \<^verbatim>\<open>## \<close> or \<^verbatim>\<open>### \<close> prefix comes after leading whitespace is not a heading: it
  is emitted as a Paragraph node holding the whole formatted line, whereas the same prefix at
  the start of the line gives a Heading node. A \<^verbatim>\<open>* \<close> marker after leading whitespace is
  recognised, the line being trimmed for that test, provided some text that is not whitespace
  follows the marker; the line is then appended to the pending list items.
\<close>

theorem C10_heading_prefix_not_trimmed:
  assumes "ws \<noteq> []" and "\<forall>c \<in> set ws. is_space c"
  shows "processLine st (ws @ ''## '' @ title) =
           (case flushListItems st of (elements, listItems) \<Rightarrow>
              (elements @ [Paragraph (applyInlineFormatting (ws @ ''## '' @ title))], listItems))
       \<and> processLine st (ws @ ''### '' @ title) =
           (case flushListItems st of (elements, listItems) \<Rightarrow>
              (elements @ [Paragraph (applyInlineFormatting (ws @ ''### '' @ title))], listItems))
       \<and> processLine st (''## '' @ title) =
           (case flushListItems st of (elements, listItems) \<Rightarrow>
              (elements @ [Heading 2 (applyInlineFormatting title)], listItems))
       \<and> ((\<exists>x \<in> set item. \<not> is_space x) \<longrightarrow>
            processLine (elements, listItems) (ws @ ''* '' @ item)
              = (elements, listItems @ [ws @ ''* '' @ item]))"
proof -
  have h2: "processLine st (ws @ ''## '' @ title) =
           (case flushListItems st of (elements, listItems) \<Rightarrow>
              (elements @ [Paragraph (applyInlineFormatting (ws @ ''## '' @ title))], listItems))"
    using indented_not_heading [OF assms, of "''## '' @ title"]
      hash_line_kind [OF assms(2), of "''# '' @ title"]
    by (simp add: processLine_def)
  have h3: "processLine st (ws @ ''### '' @ title) =
           (case flushListItems st of (elements, listItems) \<Rightarrow>
              (elements @ [Paragraph (applyInlineFormatting (ws @ ''### '' @ title))], listItems))"
    using indented_not_heading [OF assms, of "''### '' @ title"]
      hash_line_kind [OF assms(2), of "''## '' @ title"]
    by (simp add: processLine_def)
  have h: "processLine st (''## '' @ title) =
           (case flushListItems st of (elements, listItems) \<Rightarrow>
              (elements @ [Heading 2 (applyInlineFormatting title)], listItems))"
    by (simp add: processLine_def startsWith_def substring_def)
  have li: "processLine (elements, listItems) (ws @ ''* '' @ item)
              = (elements, listItems @ [ws @ ''* '' @ item])"
    if "\<exists>x \<in> set item. \<not> is_space x"
    using indented_not_heading [OF assms, of "''* '' @ item"]
      star_line_kind [OF assms(2) that]
    by (simp add: processLine_def)
  show ?thesis
    by (intro conjI impI) (rule h2, rule h3, rule h, rule li, assumption)
qed

theorem C10_witness:
  "processLine ([], []) ''  ## Title'' = ([Paragraph ''  ## Title''], [])
   \<and> processLine ([], []) ''## Title'' = ([Heading 2 ''Title''], [])
   \<and> processLine ([], []) ''  * it'' = ([], [''  * it''])"
proof -
  have ws: "''  '' \<noteq> []" "\<forall>c \<in> set ''  ''. is_space c" by (simp_all add: is_space_def)
  have item: "\<exists>x \<in> set ''it''. \<not> is_space x" by (simp add: is_space_def)
  have fl: "flushListItems ([], []) = ([], [])" by (simp add: flushListItems_def)
  have f1: "applyInlineFormatting ''  ## Title'' = ''  ## Title''" by code_simp
  have f2: "applyInlineFormatting ''Title'' = ''Title''" by code_simp
  note t = C10_heading_prefix_not_trimmed [OF ws, of "([], [])" "''Title''" "''it''" "[]" "[]"]
  from t [THEN conjunct1] have 1: "processLine ([], []) ''  ## Title'' = ([Paragraph ''  ## Title''], [])"
    by (simp add: fl f1)
  from t [THEN conjunct2, THEN conjunct2, THEN conjunct1]
  have 2: "processLine ([], []) ''## Title'' = ([Heading 2 ''Title''], [])"
    by (simp add: fl f2)
  from t [THEN conjunct2, THEN conjunct2, THEN conjunct2, rule_format, OF item]
  have 3: "processLine ([], []) ''  * it'' = ([], [''  * it''])"
    by simp
  from 1 2 3 show ?thesis by (simp only: simp_thms)
qed

lemma list_item_not_heading:
  assumes "startsWith (trim l) ''* ''"
  shows "\<not> startsWith l ''## ''" and "\<not> startsWith l ''### ''"
proof -
  have "\<not> startsWith (trim (CHR ''#'' # u)) ''* ''" for u
    using hash_line_kind(1) [of "[]" u] by simp
  with assms have "\<not> prefix ''#'' l" by (auto simp: prefix_def)
  then show "\<not> startsWith l ''## ''" "\<not> startsWith l ''### ''"
    by (auto simp: startsWith_def prefix_def)
qed

lemma processLine_item:
  "startsWith (trim l) ''* '' \<Longrightarrow> processLine (els, items) l = (els, items @ [l])"
  using list_item_not_heading [of l] by (simp add: processLine_def)

lemma foldl_items:
  "\<forall>l \<in> set its. startsWith (trim l) ''* '' \<Longrightarrow>
     foldl processLine (els, items) its = (els, items @ its)"
  by (induction its arbitrary: items) (simp_all add: processLine_item)

lemma flushListItems_idem: "flushListItems (flushListItems st) = flushListItems st"
  by (cases st) (simp add: flushListItems_def)

lemma snd_flushListItems: "snd (flushListItems st) = []"
  by (cases st) (simp add: flushListItems_def)

lemma processLine_other:
  assumes "\<not> startsWith (trim l) ''* ''"
  shows "processLine st l = processLine (flushListItems st) l" and "snd (processLine st l) = []"
proof -
  obtain els items where fl: "flushListItems st = (els, items)" by (cases "flushListItems st")
  with snd_flushListItems [of st] have "items = []" by simp
  with fl assms flushListItems_idem [of st]
  show "processLine st l = processLine (flushListItems st) l" "snd (processLine st l) = []"
    by (simp_all add: processLine_def)
qed

lemma pending_after:
  assumes "before = [] \<or> \<not> startsWith (trim (last before)) ''* ''"
  shows "snd (foldl processLine ([], []) before) = []"
proof (cases before rule: rev_cases)
  case Nil
  then show ?thesis by simp
next
  case (snoc ls l)
  with assms have "\<not> startsWith (trim l) ''* ''" by simp
  with snoc show ?thesis by (simp add: processLine_other(2))
qed

lemma blank_line_kind:
  assumes "trim l = []"
  shows "\<not> startsWith l ''## ''" and "\<not> startsWith l ''### ''" and "\<not> startsWith (trim l) ''* ''"
proof -
  have "trim (CHR ''#'' # u) \<noteq> []" for u
    using hash_line_kind(2) [of "[]" u] by simp
  with assms have "\<not> prefix ''#'' l" by (auto simp: prefix_def)
  then show "\<not> startsWith l ''## ''" "\<not> startsWith l ''### ''"
    by (auto simp: startsWith_def prefix_def)
  from assms show "\<not> startsWith (trim l) ''* ''" by (simp add: startsWith_def)
qed

lemma flushListItems_shift:
  "flushListItems (E @ e, p) = (E @ fst (flushListItems (e, p)), snd (flushListItems (e, p)))"
  by (simp add: flushListItems_def)

lemma flushed_not_empty:
  "e \<noteq> [] \<or> p \<noteq> [] \<Longrightarrow> fst (flushListItems (e, p)) \<noteq> []"
  by (auto simp: flushListItems_def)

lemma processLine_shift:
  assumes "e \<noteq> [] \<or> p \<noteq> []"
  shows "processLine (E @ e, p) l = (E @ fst (processLine (e, p) l), snd (processLine (e, p) l))"
    and "fst (processLine (e, p) l) \<noteq> [] \<or> snd (processLine (e, p) l) \<noteq> []"
proof -
  obtain e' p' where fl: "flushListItems (e, p) = (e', p')" by (cases "flushListItems (e, p)")
  with flushed_not_empty [OF assms] have ne: "e' \<noteq> []" by simp
  from fl flushListItems_shift [of E e p] have fl': "flushListItems (E @ e, p) = (E @ e', p')"
    by simp
  from fl fl' ne
  show "processLine (E @ e, p) l = (E @ fst (processLine (e, p) l), snd (processLine (e, p) l))"
    by (simp add: processLine_def)
  from fl ne assms
  show "fst (processLine (e, p) l) \<noteq> [] \<or> snd (processLine (e, p) l) \<noteq> []"
    by (auto simp: processLine_def)
qed

lemma foldl_shift:
  assumes "e \<noteq> [] \<or> p \<noteq> []"
  shows "fst (flushListItems (foldl processLine (E @ e, p) ls))
    = E @ fst (flushListItems (foldl processLine (e, p) ls))"
  using assms
proof (induction ls arbitrary: e p)
  case Nil
  show ?case by (simp add: flushListItems_shift)
next
  case (Cons l ls)
  obtain e' p' where st: "processLine (e, p) l = (e', p')" by (cases "processLine (e, p) l")
  with processLine_shift(1) [OF Cons.prems, where E = E and l = l]
    processLine_shift(2) [OF Cons.prems, where l = l]
  have "processLine (E @ e, p) l = (E @ e', p')" and "e' \<noteq> [] \<or> p' \<noteq> []" by simp_all
  with Cons.IH [of e' p'] st show ?case by simp
qed

lemma first_line_shift:
  assumes "trim l \<noteq> []"
  shows "processLine (E, []) l = (E @ fst (processLine ([], []) l), snd (processLine ([], []) l))"
    and "fst (processLine ([], []) l) \<noteq> [] \<or> snd (processLine ([], []) l) \<noteq> []"
  using assms by (auto simp: processLine_def flushListItems_def)

lemma continue_not_blank:
  assumes "trim l \<noteq> []"
  shows "fst (flushListItems (foldl processLine (E, []) (l # ls))) = E @ renderLines (l # ls)"
proof -
  obtain e p where st: "processLine ([], []) l = (e, p)" by (cases "processLine ([], []) l")
  with first_line_shift(1) [OF assms, where E = E] first_line_shift(2) [OF assms]
  have 1: "processLine (E, []) l = (E @ e, p)" and 2: "e \<noteq> [] \<or> p \<noteq> []" by simp_all
  from foldl_shift [OF 2, of E ls] 1 st show ?thesis by (simp add: renderLines_def)
qed

lemma continue_from:
  "E \<noteq> [] \<Longrightarrow> fst (flushListItems (foldl processLine (E, []) ls)) = E @ nodesAfter ls"
proof (induction ls arbitrary: E)
  case Nil
  show ?case by (simp add: flushListItems_def)
next
  case (Cons l ls)
  show ?case
  proof (cases "trim l = []")
    case True
    with blank_line_kind [OF True] Cons.prems
    have "processLine (E, []) l = (E @ [LineBreak], [])"
      by (simp add: processLine_def flushListItems_def)
    with Cons.IH [of "E @ [LineBreak]"] True show ?thesis by simp
  next
    case False
    with continue_not_blank [OF False, of E ls] show ?thesis by simp
  qed
qed

lemma run_is_one_list:
  assumes its: "its \<noteq> []" "\<forall>l \<in> set its. startsWith (trim l) ''* ''"
    and before: "before = [] \<or> \<not> startsWith (trim (last before)) ''* ''"
    and after: "after = [] \<or> \<not> startsWith (trim (hd after)) ''* ''"
  shows "renderLines (before @ its @ after) =
      renderLines before @ ListNode (map (\<lambda>item. applyInlineFormatting (substring item 2)) its)
        # nodesAfter after"
proof -
  let ?list = "ListNode (map (\<lambda>item. applyInlineFormatting (substring item 2)) its)"
  obtain E where E: "foldl processLine ([], []) before = (E, [])"
    using pending_after [OF before] by (cases "foldl processLine ([], []) before") simp
  then have rb: "renderLines before = E" by (simp add: renderLines_def flushListItems_def)
  have mid: "foldl processLine ([], []) (before @ its) = (E, its)"
    using foldl_items [OF its(2), of E "[]"] E by simp
  have fl: "flushListItems (E, its) = (E @ [?list], [])"
    using its(1) by (simp add: flushListItems_def)
  have "foldl processLine (E, its) after = foldl processLine (E @ [?list], []) after
      \<or> (after = [] \<and> foldl processLine (E, its) after = (E, its))"
  proof (cases after)
    case Nil
    then show ?thesis by simp
  next
    case (Cons l ls)
    with after have l: "\<not> startsWith (trim l) ''* ''" by simp
    have "processLine (E, its) l = processLine (flushListItems (E, its)) l"
      by (rule processLine_other(1) [OF l])
    also have "\<dots> = processLine (E @ [?list], []) l"
      by (simp only: fl)
    finally have "foldl processLine (E, its) (l # ls) = foldl processLine (E @ [?list], []) (l # ls)"
      by simp
    with Cons show ?thesis by simp
  qed
  moreover have "flushListItems (E @ [?list], []) = (E @ [?list], [])"
    by (simp add: flushListItems_def)
  ultimately have "fst (flushListItems (foldl processLine (E, its) after))
      = fst (flushListItems (foldl processLine (E @ [?list], []) after))"
    using fl by auto
  also have "\<dots> = (E @ [?list]) @ nodesAfter after"
    by (rule continue_from) simp
  finally have "fst (flushListItems (foldl processLine (E, its) after)) = E @ ?list # nodesAfter after"
    by simp
  moreover have "renderLines (before @ its @ after)
      = fst (flushListItems (foldl processLine (E, its) after))"
    using mid by (simp only: renderLines_def foldl_append [symmetric] append_assoc [symmetric]) simp
  ultimately show ?thesis using rb by simp
qed

text \<open>
  C7. The input of three lines \<^verbatim>\<open>* a\<close>, \<^verbatim>\<open>* b\<close>, \<^verbatim>\<open>* c\<close> renders as one List node with the
  items a, b, c. In general, for a maximal run of consecutive list-item lines within a block,
  the nodes of the block are exactly: the nodes of the lines before the run, then one List node
  whose items are the formatted lines of the run, each without its first two characters, then
  the nodes of the lines after the run.
\<close>

theorem C7_list_run_is_one_list_node:
  "renderContent (''* a'' @ [nl] @ ''* b'' @ [nl] @ ''* c'')
     = Some [TextBlock [ListNode [''a'', ''b'', ''c'']]]
   \<and> (its \<noteq> [] \<and> (\<forall>l \<in> set its. startsWith (trim l) ''* '')
        \<and> (before = [] \<or> \<not> startsWith (trim (last before)) ''* '')
        \<and> (after = [] \<or> \<not> startsWith (trim (hd after)) ''* '')
      \<longrightarrow> renderLines (before @ its @ after) =
             renderLines before
               @ ListNode (map (\<lambda>item. applyInlineFormatting (substring item 2)) its)
                 # nodesAfter after)"
proof -
  have "renderContent (''* a'' @ [nl] @ ''* b'' @ [nl] @ ''* c'')
     = Some [TextBlock [ListNode [''a'', ''b'', ''c'']]]"
    by code_simp
  then show ?thesis
    by (intro conjI impI) (assumption, elim conjE, rule run_is_one_list)
qed

theorem C7_witness:
  "renderLines ([''intro''] @ [''* a'', ''* **b**''] @ [[], ''end'', ''* z'']) =
     [Paragraph ''intro'', ListNode [''a'', ''<strong>b</strong>''], LineBreak, Paragraph ''end'',
      ListNode [''z'']]"
proof -
  have h: "[''* a'', ''* **b**''] \<noteq> [] \<and> (\<forall>l \<in> set [''* a'', ''* **b**'']. startsWith (trim l) ''* '')
        \<and> ([''intro''] = [] \<or> \<not> startsWith (trim (last [''intro''])) ''* '')
        \<and> ([[], ''end'', ''* z''] = [] \<or> \<not> startsWith (trim (hd [[], ''end'', ''* z''])) ''* '')"
    by (simp add: startsWith_def trim_def is_space_def)
  have m: "map (\<lambda>item. applyInlineFormatting (substring item 2)) [''* a'', ''* **b**'']
      = [''a'', ''<strong>b</strong>'']"
    by code_simp
  have b: "renderLines [''intro''] = [Paragraph ''intro'']" by code_simp
  have a: "nodesAfter [[], ''end'', ''* z''] = [LineBreak, Paragraph ''end'', ListNode [''z'']]"
    by code_simp
  from C7_list_run_is_one_list_node [of "[''* a'', ''* **b**'']" "[''intro'']" "[[], ''end'', ''* z'']",
      THEN conjunct2, rule_format, OF h]
  show ?thesis by (simp only: m b a append_Cons append_Nil)
qed

end
